theory Spec2Isabelle
  imports Complex_Main "HOL-Library.Finite_Map" "HOL-Library.Char_ord"
    "HOL-Library.List_Lexorder" "HOL-Library.Product_Lexorder" "HOL-Library.Option_ord"
begin

section \<open>Route search of find\_route.py\<close>

text \<open>
  Python floats are idealised as \<^typ>\<open>real\<close> numbers (no rounding, no NaN); the sentinel
  \<open>float('inf')\<close> is a constructor of its own. Station and line identifiers are taken
  from arbitrary linearly ordered types (Python compares the strings of a queue entry when
  the costs tie).
\<close>

datatype cost = Num real | PosInf

record ('a, 'l) edge =
  to :: 'a
  distance :: real
  line :: 'l

type_synonym ('a, 'l) graph = "('a, ('a, 'l) edge list) fmap"

type_synonym ('a, 'l) path = "('a \<times> 'l option) list"

type_synonym ('a, 'l) result = "cost \<times> ('a, 'l) path \<times> nat"

subsection \<open>Queue and cost table\<close>

text \<open>
  \<open>heapq\<close> keeps a binary heap in a list. The search observes only which entry is popped
  and whether the queue is empty, and \<open>heappop\<close> returns a least entry of the tuple order,
  so the queue is modelled by the list of its entries.
\<close>

definition heappush :: "'e list \<Rightarrow> 'e \<Rightarrow> 'e list" where
  "heappush queue x = x # queue"

definition heappop :: "'e::linorder list \<Rightarrow> 'e \<times> 'e list" where
  "heappop queue = (min_list queue, remove1 (min_list queue) queue)"

definition get_inf :: "('a \<rightharpoonup> cost) \<Rightarrow> 'a \<Rightarrow> cost" where
  \<comment> \<open>\<open>d.get(k, float('inf'))\<close>\<close>
  "get_inf d k = (case d k of None \<Rightarrow> PosInf | Some c \<Rightarrow> c)"

definition lt_cost :: "real \<Rightarrow> cost \<Rightarrow> bool" where
  \<comment> \<open>\<open>x < c\<close> for a finite \<open>x\<close>\<close>
  "lt_cost x c = (case c of PosInf \<Rightarrow> True | Num y \<Rightarrow> x < y)"

definition init_table :: "('a, 'l) graph \<Rightarrow> 'a \<Rightarrow> ('a \<rightharpoonup> cost)" where
  \<comment> \<open>\<open>{node: float('inf') for node in graph}\<close>, then \<open>[start_node] = 0\<close>\<close>
  "init_table graph start_node =
     (\<lambda>node. if node |\<in>| fmdom graph then Some PosInf else None)(start_node \<mapsto> Num 0)"

subsection \<open>dijkstra\<close>

definition dijkstra_relax ::
  "real \<Rightarrow> 'a \<Rightarrow> ('a, 'l) path \<Rightarrow> ('a, 'l) edge
     \<Rightarrow> ('a \<rightharpoonup> cost) \<times> (real \<times> 'a \<times> ('a, 'l) path) list
     \<Rightarrow> ('a \<rightharpoonup> cost) \<times> (real \<times> 'a \<times> ('a, 'l) path) list" where
  "dijkstra_relax current_dist current_node path e s =
     (case s of (min_distances, queue) \<Rightarrow>
        let neighbor = to e; weight = distance e; line' = line e;
            dist = current_dist + weight
        in if lt_cost dist (get_inf min_distances neighbor)
           then (min_distances(neighbor \<mapsto> Num dist),
                 heappush queue (dist, neighbor, path @ [(current_node, Some line')]))
           else (min_distances, queue))"

function dijkstra_loop ::
  "('a::linorder, 'l::linorder) graph \<Rightarrow> 'a \<Rightarrow> (real \<times> 'a \<times> ('a, 'l) path) list
     \<Rightarrow> 'a set \<Rightarrow> ('a \<rightharpoonup> cost) \<Rightarrow> nat \<Rightarrow> ('a, 'l) result" where
  "dijkstra_loop graph end_node queue visited min_distances nodes_visited_count =
     (if queue = [] then (PosInf, [], nodes_visited_count)
      else case heappop queue of ((current_dist, current_node, path), queue1) \<Rightarrow>
        if current_node = end_node
        then (Num current_dist, path @ [(current_node, None)], nodes_visited_count + 1)
        else if current_node \<in> visited
        then dijkstra_loop graph end_node queue1 visited min_distances
               (nodes_visited_count + 1)
        else case fmlookup graph current_node of
               None \<Rightarrow>
                 dijkstra_loop graph end_node queue1 (insert current_node visited)
                   min_distances (nodes_visited_count + 1)
             | Some edges \<Rightarrow>
                 (case fold (dijkstra_relax current_dist current_node path) edges
                         (min_distances, queue1) of
                    (min_distances1, queue2) \<Rightarrow>
                      dijkstra_loop graph end_node queue2 (insert current_node visited)
                        min_distances1 (nodes_visited_count + 1)))"
  by pat_completeness auto

lemma min_list_in_set: "(xs :: 'e::linorder list) \<noteq> [] \<Longrightarrow> min_list xs \<in> set xs"
proof -
  assume ne: "xs \<noteq> []"
  then have "min_list xs = Min (set xs)"
    by (rule min_list_Min)
  moreover have "Min (set xs) \<in> set xs"
    using ne by (intro Min_in) simp_all
  ultimately show ?thesis
    by simp
qed

lemma heappop_shorter:
  assumes "queue \<noteq> []" "heappop queue = (x, queue1)"
  shows "length queue1 < length queue"
proof -
  have q1: "queue1 = remove1 (min_list queue) queue"
    using assms(2) unfolding heappop_def by auto
  have "min_list queue \<in> set queue"
    using assms(1) by (rule min_list_in_set)
  then have "length queue1 = length queue - 1"
    unfolding q1 by (simp add: length_remove1)
  moreover have "0 < length queue"
    using assms(1) by simp
  ultimately show ?thesis
    by simp
qed

lemma unvisited_keys_absent:
  "fmlookup graph n = None \<Longrightarrow> fmdom' graph - insert n visited = fmdom' graph - visited"
  using fmdom'_notI[of graph n] by blast

lemma unvisited_keys_present:
  assumes "fmlookup graph n = Some es" "n \<notin> visited"
  shows "card (fmdom' graph - insert n visited) < card (fmdom' graph - visited)"
proof -
  have mem: "n \<in> fmdom' graph - visited"
    using assms fmdom'I[of graph n es] by blast
  have fin: "finite (fmdom' graph - visited)"
    by simp
  have eq: "fmdom' graph - insert n visited = (fmdom' graph - visited) - {n}"
    by blast
  show ?thesis
    unfolding eq by (rule card_Diff1_less[OF fin mem])
qed

termination dijkstra_loop
proof (relation "inv_image (measure card <*lex*> measure length)
    (\<lambda>(graph, end_node, queue, visited, md, c). (fmdom' graph - visited, queue))",
    goal_cases)
  case 1
  show ?case by auto
next
  case (2 graph end_node queue visited md c x queue1 d y n p)
  then show ?case
    using heappop_shorter[of queue x queue1] by simp
next
  case (3 graph end_node queue visited md c x queue1 d y n p)
  then show ?case
    using heappop_shorter[of queue x queue1] by (simp add: unvisited_keys_absent)
next
  case (4 graph end_node queue visited md c x queue1 d y n p es md1 queue2)
  then show ?case
    using unvisited_keys_present[of graph n es visited] by simp
qed

declare dijkstra_loop.simps [simp del]

definition dijkstra :: "('a::linorder, 'l::linorder) graph \<Rightarrow> 'a \<Rightarrow> 'a \<Rightarrow> ('a, 'l) result" where
  "dijkstra graph start_node end_node =
     dijkstra_loop graph end_node [(0, start_node, [])] {}
       (init_table graph start_node) 0"

subsection \<open>haversine and heuristic\<close>

definition radians :: "real \<Rightarrow> real" where
  "radians x = x * pi / 180"

definition haversine_a :: "real \<Rightarrow> real \<Rightarrow> real \<Rightarrow> real \<Rightarrow> real" where
  \<comment> \<open>the value \<open>a\<close> of the haversine formula, which \<open>math.sqrt\<close> and then
      \<open>math.asin\<close> receive; they raise outside \<open>[0, \<infinity>)\<close> and \<open>[-1, 1]\<close>\<close>
  "haversine_a lat1 lon1 lat2 lon2 =
     (let lat1 = radians lat1; lon1 = radians lon1;
          lat2 = radians lat2; lon2 = radians lon2;
          dlon = lon2 - lon1;
          dlat = lat2 - lat1
      in (sin (dlat / 2))\<^sup>2 + cos lat1 * cos lat2 * (sin (dlon / 2))\<^sup>2)"

definition haversine :: "real \<Rightarrow> real \<Rightarrow> real \<Rightarrow> real \<Rightarrow> real" where
  "haversine lat1 lon1 lat2 lon2 =
     (let a = haversine_a lat1 lon1 lat2 lon2;
          c = 2 * arcsin (sqrt a);
          r = 6371
      in c * r)"

record latlon =
  lat :: real
  lon :: real

record station =
  coords :: latlon

definition heuristic :: "'a \<Rightarrow> 'a \<Rightarrow> ('a, station) fmap \<Rightarrow> real" where
  "heuristic node target stations_data =
     (case fmlookup stations_data node of
        None \<Rightarrow> 0
      | Some s1 \<Rightarrow>
          (case fmlookup stations_data target of
             None \<Rightarrow> 0
           | Some s2 \<Rightarrow>
               let coords1 = coords s1; coords2 = coords s2
               in haversine (lat coords1) (lon coords1) (lat coords2) (lon coords2)))"

subsection \<open>a\_star\<close>

text \<open>
  The loop takes the estimate \<open>h\<close> of the remaining cost as a function of the station;
  \<open>a_star\<close> passes \<open>heuristic\<close> with its end station and metadata table.
\<close>

definition a_star_relax ::
  "('a \<Rightarrow> real) \<Rightarrow> real \<Rightarrow> 'a \<Rightarrow> ('a, 'l) path \<Rightarrow> ('a, 'l) edge
     \<Rightarrow> ('a \<rightharpoonup> cost) \<times> (real \<times> real \<times> 'a \<times> ('a, 'l) path) list
     \<Rightarrow> ('a \<rightharpoonup> cost) \<times> (real \<times> real \<times> 'a \<times> ('a, 'l) path) list" where
  "a_star_relax h current_g current_node path e s =
     (case s of (g_scores, queue) \<Rightarrow>
        let neighbor = to e; weight = distance e; line' = line e;
            tentative_g = current_g + weight
        in if lt_cost tentative_g (get_inf g_scores neighbor)
           then let h_score = h neighbor;
                    f_score = tentative_g + h_score
                in (g_scores(neighbor \<mapsto> Num tentative_g),
                    heappush queue
                      (f_score, tentative_g, neighbor, path @ [(current_node, Some line')]))
           else (g_scores, queue))"

function a_star_loop ::
  "('a \<Rightarrow> real) \<Rightarrow> ('a::linorder, 'l::linorder) graph \<Rightarrow> 'a
     \<Rightarrow> (real \<times> real \<times> 'a \<times> ('a, 'l) path) list
     \<Rightarrow> 'a set \<Rightarrow> ('a \<rightharpoonup> cost) \<Rightarrow> nat \<Rightarrow> ('a, 'l) result" where
  "a_star_loop h graph end_node queue visited g_scores nodes_visited_count =
     (if queue = [] then (PosInf, [], nodes_visited_count)
      else case heappop queue of ((f_score, current_g, current_node, path), queue1) \<Rightarrow>
        if current_node = end_node
        then (Num current_g, path @ [(current_node, None)], nodes_visited_count + 1)
        else if current_node \<in> visited
        then a_star_loop h graph end_node queue1 visited g_scores
               (nodes_visited_count + 1)
        else case fmlookup graph current_node of
               None \<Rightarrow>
                 a_star_loop h graph end_node queue1 (insert current_node visited)
                   g_scores (nodes_visited_count + 1)
             | Some edges \<Rightarrow>
                 (case fold (a_star_relax h current_g current_node path) edges
                         (g_scores, queue1) of
                    (g_scores1, queue2) \<Rightarrow>
                      a_star_loop h graph end_node queue2 (insert current_node visited)
                        g_scores1 (nodes_visited_count + 1)))"
  by pat_completeness auto

termination a_star_loop
proof (relation "inv_image (measure card <*lex*> measure length)
    (\<lambda>(h, graph, end_node, queue, visited, gs, c). (fmdom' graph - visited, queue))",
    goal_cases)
  case 1
  show ?case by auto
next
  case (2 h graph end_node queue visited gs c x queue1 f y g z n p)
  then show ?case
    using heappop_shorter[of queue x queue1] by simp
next
  case (3 h graph end_node queue visited gs c x queue1 f y g z n p)
  then show ?case
    using heappop_shorter[of queue x queue1] by (simp add: unvisited_keys_absent)
next
  case (4 h graph end_node queue visited gs c x queue1 f y g z n p es gs1 queue2)
  then show ?case
    using unvisited_keys_present[of graph n es visited] by simp
qed

declare a_star_loop.simps [simp del]

definition a_star ::
  "('a::linorder, 'l::linorder) graph \<Rightarrow> 'a \<Rightarrow> 'a \<Rightarrow> ('a, station) fmap \<Rightarrow> ('a, 'l) result" where
  "a_star graph start_node end_node stations_data =
     a_star_loop (\<lambda>neighbor. heuristic neighbor end_node stations_data) graph end_node
       [(0, 0, start_node, [])] {} (init_table graph start_node) 0"

subsection \<open>The stations a search dequeues\<close>

text \<open>
  The two loops once more, returning instead of the result the list of the stations
  \<open>current_node\<close> that \<open>heapq.heappop\<close> hands out, in the order of the iterations: every
  iteration pops one entry and adds 1 to \<open>nodes_visited_count\<close>, and the loop is left
  either with the end station as the last station popped or with an empty queue. Queue,
  visited set and cost table are updated as in \<open>dijkstra_loop\<close> and \<open>a_star_loop\<close>.
\<close>

function dijkstra_dequeued_loop ::
  "('a::linorder, 'l::linorder) graph \<Rightarrow> 'a \<Rightarrow> (real \<times> 'a \<times> ('a, 'l) path) list
     \<Rightarrow> 'a set \<Rightarrow> ('a \<rightharpoonup> cost) \<Rightarrow> 'a list" where
  "dijkstra_dequeued_loop graph end_node queue visited min_distances =
     (if queue = [] then []
      else case heappop queue of ((current_dist, current_node, path), queue1) \<Rightarrow>
        current_node #
        (if current_node = end_node then []
         else if current_node \<in> visited
         then dijkstra_dequeued_loop graph end_node queue1 visited min_distances
         else case fmlookup graph current_node of
                None \<Rightarrow>
                  dijkstra_dequeued_loop graph end_node queue1 (insert current_node visited)
                    min_distances
              | Some edges \<Rightarrow>
                  (case fold (dijkstra_relax current_dist current_node path) edges
                          (min_distances, queue1) of
                     (min_distances1, queue2) \<Rightarrow>
                       dijkstra_dequeued_loop graph end_node queue2
                         (insert current_node visited) min_distances1)))"
  by pat_completeness auto

termination dijkstra_dequeued_loop
proof (relation "inv_image (measure card <*lex*> measure length)
    (\<lambda>(graph, end_node, queue, visited, md). (fmdom' graph - visited, queue))",
    goal_cases)
  case 1
  show ?case by auto
next
  case (2 graph end_node queue visited md x queue1 d y n p)
  then show ?case
    using heappop_shorter[of queue x queue1] by simp
next
  case (3 graph end_node queue visited md x queue1 d y n p)
  then show ?case
    using heappop_shorter[of queue x queue1] by (simp add: unvisited_keys_absent)
next
  case (4 graph end_node queue visited md x queue1 d y n p es md1 queue2)
  then show ?case
    using unvisited_keys_present[of graph n es visited] by simp
qed

declare dijkstra_dequeued_loop.simps [simp del]

definition dijkstra_dequeued :: "('a::linorder, 'l::linorder) graph \<Rightarrow> 'a \<Rightarrow> 'a \<Rightarrow> 'a list" where
  "dijkstra_dequeued graph start_node end_node =
     dijkstra_dequeued_loop graph end_node [(0, start_node, [])] {}
       (init_table graph start_node)"

function a_star_dequeued_loop ::
  "('a \<Rightarrow> real) \<Rightarrow> ('a::linorder, 'l::linorder) graph \<Rightarrow> 'a
     \<Rightarrow> (real \<times> real \<times> 'a \<times> ('a, 'l) path) list
     \<Rightarrow> 'a set \<Rightarrow> ('a \<rightharpoonup> cost) \<Rightarrow> 'a list" where
  "a_star_dequeued_loop h graph end_node queue visited g_scores =
     (if queue = [] then []
      else case heappop queue of ((f_score, current_g, current_node, path), queue1) \<Rightarrow>
        current_node #
        (if current_node = end_node then []
         else if current_node \<in> visited
         then a_star_dequeued_loop h graph end_node queue1 visited g_scores
         else case fmlookup graph current_node of
                None \<Rightarrow>
                  a_star_dequeued_loop h graph end_node queue1 (insert current_node visited)
                    g_scores
              | Some edges \<Rightarrow>
                  (case fold (a_star_relax h current_g current_node path) edges
                          (g_scores, queue1) of
                     (g_scores1, queue2) \<Rightarrow>
                       a_star_dequeued_loop h graph end_node queue2
                         (insert current_node visited) g_scores1)))"
  by pat_completeness auto

termination a_star_dequeued_loop
proof (relation "inv_image (measure card <*lex*> measure length)
    (\<lambda>(h, graph, end_node, queue, visited, gs). (fmdom' graph - visited, queue))",
    goal_cases)
  case 1
  show ?case by auto
next
  case (2 h graph end_node queue visited gs x queue1 f y g z n p)
  then show ?case
    using heappop_shorter[of queue x queue1] by simp
next
  case (3 h graph end_node queue visited gs x queue1 f y g z n p)
  then show ?case
    using heappop_shorter[of queue x queue1] by (simp add: unvisited_keys_absent)
next
  case (4 h graph end_node queue visited gs x queue1 f y g z n p es gs1 queue2)
  then show ?case
    using unvisited_keys_present[of graph n es visited] by simp
qed

declare a_star_dequeued_loop.simps [simp del]

definition a_star_dequeued ::
  "('a::linorder, 'l::linorder) graph \<Rightarrow> 'a \<Rightarrow> 'a \<Rightarrow> ('a, station) fmap \<Rightarrow> 'a list" where
  "a_star_dequeued graph start_node end_node stations_data =
     a_star_dequeued_loop (\<lambda>neighbor. heuristic neighbor end_node stations_data) graph
       end_node [(0, 0, start_node, [])] {} (init_table graph start_node)"

subsection \<open>format\_path and the report of main\<close>

datatype ('a, 'l) formatted =
    Message string
  | Route (route: "'a list") (lines: "'l option list")

definition format_step ::
  "'a \<times> 'l option \<Rightarrow> 'a list \<times> 'l option list \<Rightarrow> 'a list \<times> 'l option list" where
  "format_step x acc =
     (case x of (station, line') \<Rightarrow>
        case acc of (stations_path, lines_used) \<Rightarrow>
          (stations_path @ [station],
           if lines_used = [] \<or> last lines_used \<noteq> line' then lines_used @ [line']
           else lines_used))"

definition format_path :: "('a, 'l) path \<Rightarrow> ('a, 'l) formatted" where
  "format_path path_data =
     (if path_data = [] then Message ''No path found.''
      else case fold format_step (butlast path_data) ([], []) of
             (stations_path, lines_used) \<Rightarrow>
               Route (stations_path @ [fst (last path_data)]) lines_used)"

datatype py_error = TypeError | ZeroDivisionError

definition improvement :: "nat \<Rightarrow> nat \<Rightarrow> py_error + real" where
  \<comment> \<open>\<open>((d_nodes - a_nodes) / d_nodes) * 100\<close>; Python's \<open>/\<close> raises on a zero divisor\<close>
  "improvement d_nodes a_nodes =
     (if d_nodes = 0 then Inl ZeroDivisionError
      else Inr (real_of_int (int d_nodes - int a_nodes) / real d_nodes * 100))"

datatype ('a, 'l) report =
    StationNotFound 'a
  | NoRoute
  | Comparison (total_distance: cost) (lines_used: "'l option list")
      (number_of_stations: nat) (dijkstra_nodes: nat) (a_star_nodes: nat)
      (percent_fewer: real) (stations_route: "'a list")

definition main ::
  "('a, station) fmap \<Rightarrow> ('a::linorder, 'l::linorder) graph \<Rightarrow> 'a \<Rightarrow> 'a
     \<Rightarrow> py_error + ('a, 'l) report" where
  "main stations edges start_station end_station =
     (if start_station |\<notin>| fmdom stations then Inr (StationNotFound start_station)
      else if end_station |\<notin>| fmdom stations then Inr (StationNotFound end_station)
      else case dijkstra edges start_station end_station of (d_dist, d_path, d_nodes) \<Rightarrow>
           case a_star edges start_station end_station stations of
             (a_dist, a_path, a_nodes) \<Rightarrow>
               if d_dist = PosInf then Inr NoRoute
               else (case format_path a_path of
                       Message m \<Rightarrow> Inl TypeError
                     | Route rt ls \<Rightarrow>
                         (case improvement d_nodes a_nodes of
                            Inl err \<Rightarrow> Inl err
                          | Inr imp \<Rightarrow>
                              Inr (Comparison a_dist ls (length rt) d_nodes a_nodes
                                     imp rt))))"

subsection \<open>Notions used to state the properties\<close>

text \<open>
  A dijkstra queue entry \<open>(d, n, p)\<close> read as the a\_star entry \<open>(d, d, n, p)\<close>: with a zero
  estimate the two queues hold the same entries in the same order.
\<close>

definition lift_entry :: "real \<times> 'a \<times> ('a, 'l) path \<Rightarrow> real \<times> real \<times> 'a \<times> ('a, 'l) path" where
  "lift_entry x = (fst x, x)"

text \<open>
  The outgoing edges of a station (none when it is no key of the graph), the walks of the
  graph from a start station with their total cost, and what it means for a cost to be the
  minimum over all walks from start to end (\<open>PosInf\<close> standing for "there is none").
\<close>

definition edges_of :: "('a, 'l) graph \<Rightarrow> 'a \<Rightarrow> ('a, 'l) edge list" where
  "edges_of graph u = (case fmlookup graph u of None \<Rightarrow> [] | Some es \<Rightarrow> es)"

inductive walk :: "('a, 'l) graph \<Rightarrow> 'a \<Rightarrow> real \<Rightarrow> 'a \<Rightarrow> bool" for graph s where
  walk_start: "walk graph s 0 s"
| walk_edge: "walk graph s c u \<Longrightarrow> ed \<in> set (edges_of graph u) \<Longrightarrow>
     walk graph s (c + distance ed) (to ed)"

definition is_min_cost :: "('a, 'l) graph \<Rightarrow> 'a \<Rightarrow> 'a \<Rightarrow> cost \<Rightarrow> bool" where
  "is_min_cost graph s e c =
     (case c of
        PosInf \<Rightarrow> (\<forall>d. \<not> walk graph s d e)
      | Num d \<Rightarrow> walk graph s d e \<and> (\<forall>d'. walk graph s d' e \<longrightarrow> d \<le> d'))"

definition nonneg_weights :: "('a, 'l) graph \<Rightarrow> bool" where
  "nonneg_weights graph =
     (\<forall>u \<in> fmdom' graph. \<forall>ed \<in> set (edges_of graph u). 0 \<le> distance ed)"

text \<open>
  An estimate is consistent when it drops by at most the edge weight along every edge, and
  admissible when it never exceeds the cost of a walk to the end station.
\<close>

definition consistent :: "('a \<Rightarrow> real) \<Rightarrow> ('a, 'l) graph \<Rightarrow> bool" where
  "consistent h graph =
     (\<forall>u \<in> fmdom' graph. \<forall>ed \<in> set (edges_of graph u). h u \<le> distance ed + h (to ed))"

definition heuristic_consistent :: "('a, 'l) graph \<Rightarrow> 'a \<Rightarrow> ('a, station) fmap \<Rightarrow> bool" where
  "heuristic_consistent graph end_node stations_data =
     (\<forall>u \<in> fmdom' graph. \<forall>ed \<in> set (edges_of graph u).
        heuristic u end_node stations_data
          \<le> distance ed + heuristic (to ed) end_node stations_data)"

definition heuristic_admissible :: "('a, 'l) graph \<Rightarrow> 'a \<Rightarrow> ('a, station) fmap \<Rightarrow> bool" where
  "heuristic_admissible graph end_node stations_data =
     (\<forall>n c. walk graph n c end_node \<longrightarrow> heuristic n end_node stations_data \<le> c)"

subsection \<open>Example networks\<close>

text \<open>
  The four-station line of the end-to-end scenario, with each connection in both
  directions.
\<close>

definition line_graph :: "(string, string) graph" where
  "line_graph = fmap_of_list
     [(''A'', [\<lparr>to = ''B'', distance = 1, line = ''Red''\<rparr>]),
      (''B'', [\<lparr>to = ''A'', distance = 1, line = ''Red''\<rparr>,
               \<lparr>to = ''C'', distance = 2, line = ''Red''\<rparr>]),
      (''C'', [\<lparr>to = ''B'', distance = 2, line = ''Red''\<rparr>,
               \<lparr>to = ''D'', distance = 3 / 2, line = ''Blue''\<rparr>]),
      (''D'', [\<lparr>to = ''C'', distance = 3 / 2, line = ''Blue''\<rparr>])]"

text \<open>
  A network on the equator whose weights are at least the straight-line distances: the
  estimate is consistent.
\<close>

definition equator_graph :: "(string, string) graph" where
  "equator_graph = fmap_of_list
     [(''S'', [\<lparr>to = ''M'', distance = 1, line = ''Red''\<rparr>,
               \<lparr>to = ''E'', distance = 30000, line = ''Blue''\<rparr>]),
      (''M'', [\<lparr>to = ''E'', distance = 26000, line = ''Red''\<rparr>])]"

definition equator_stations :: "(string, station) fmap" where
  "equator_stations = fmap_of_list
     [(''S'', \<lparr>coords = \<lparr>lat = 0, lon = 0\<rparr>\<rparr>),
      (''M'', \<lparr>coords = \<lparr>lat = 0, lon = 0\<rparr>\<rparr>),
      (''E'', \<lparr>coords = \<lparr>lat = 0, lon = 180\<rparr>\<rparr>)]"

text \<open>
  A network whose estimate is admissible but not consistent: \<open>A\<close> lies half a turn away
  from the end station \<open>E\<close>, while \<open>B\<close>, one kilometre from \<open>A\<close>, lies at \<open>E\<close>.
\<close>

definition shortcut_graph :: "(string, string) graph" where
  "shortcut_graph = fmap_of_list
     [(''S'', [\<lparr>to = ''A'', distance = 1, line = ''Red''\<rparr>,
               \<lparr>to = ''B'', distance = 3, line = ''Blue''\<rparr>]),
      (''A'', [\<lparr>to = ''B'', distance = 1, line = ''Red''\<rparr>]),
      (''B'', [\<lparr>to = ''E'', distance = 30000, line = ''Red''\<rparr>])]"

definition shortcut_stations :: "(string, station) fmap" where
  "shortcut_stations = fmap_of_list
     [(''S'', \<lparr>coords = \<lparr>lat = 0, lon = 180\<rparr>\<rparr>),
      (''A'', \<lparr>coords = \<lparr>lat = 0, lon = 0\<rparr>\<rparr>),
      (''B'', \<lparr>coords = \<lparr>lat = 0, lon = 180\<rparr>\<rparr>),
      (''E'', \<lparr>coords = \<lparr>lat = 0, lon = 180\<rparr>\<rparr>)]"

text \<open>
  A network with a consistent and admissible estimate in which \<open>X\<close> is reached first over
  the longer of two ways.
\<close>

definition detour_graph :: "(string, string) graph" where
  "detour_graph = fmap_of_list
     [(''S'', [\<lparr>to = ''P1'', distance = 1, line = ''Red''\<rparr>,
               \<lparr>to = ''P2'', distance = 2, line = ''Blue''\<rparr>]),
      (''P1'', [\<lparr>to = ''X'', distance = 1, line = ''Red''\<rparr>]),
      (''P2'', [\<lparr>to = ''X'', distance = 5, line = ''Blue''\<rparr>]),
      (''X'', [\<lparr>to = ''E'', distance = 30000, line = ''Red''\<rparr>])]"

definition detour_stations :: "(string, station) fmap" where
  "detour_stations = fmap_of_list
     [(''S'', \<lparr>coords = \<lparr>lat = 0, lon = 180\<rparr>\<rparr>),
      (''P1'', \<lparr>coords = \<lparr>lat = 0, lon = 0\<rparr>\<rparr>),
      (''P2'', \<lparr>coords = \<lparr>lat = 0, lon = 180\<rparr>\<rparr>),
      (''X'', \<lparr>coords = \<lparr>lat = 0, lon = 0\<rparr>\<rparr>),
      (''E'', \<lparr>coords = \<lparr>lat = 0, lon = 180\<rparr>\<rparr>)]"

text \<open>
  A network with a consistent estimate and a branch \<open>W\<close> that leads away from the end
  station: dijkstra dequeues \<open>W\<close>, a\_star does not.
\<close>

definition branch_graph :: "(string, string) graph" where
  "branch_graph = fmap_of_list
     [(''S'', [\<lparr>to = ''M'', distance = 1, line = ''Red''\<rparr>,
               \<lparr>to = ''W'', distance = 14000, line = ''Blue''\<rparr>]),
      (''M'', [\<lparr>to = ''E'', distance = 26000, line = ''Red''\<rparr>])]"

definition branch_stations :: "(string, station) fmap" where
  "branch_stations = fmap_of_list
     [(''S'', \<lparr>coords = \<lparr>lat = 0, lon = 0\<rparr>\<rparr>),
      (''M'', \<lparr>coords = \<lparr>lat = 0, lon = 0\<rparr>\<rparr>),
      (''W'', \<lparr>coords = \<lparr>lat = 0, lon = 0\<rparr>\<rparr>),
      (''E'', \<lparr>coords = \<lparr>lat = 0, lon = 180\<rparr>\<rparr>)]"

section \<open>Properties\<close>

subsection \<open>One iteration of the a\_star loop\<close>

lemma a_star_loop_Nil: "a_star_loop h g e [] V G c = (PosInf, [], c)"
  by (simp add: a_star_loop.simps)

lemma a_star_loop_end:
  "queue \<noteq> [] \<Longrightarrow> heappop queue = ((f, d, e, p), q1) \<Longrightarrow>
   a_star_loop h g e queue V G c = (Num d, p @ [(e, None)], c + 1)"
  by (simp add: a_star_loop.simps)

lemma a_star_loop_skip:
  "queue \<noteq> [] \<Longrightarrow> heappop queue = ((f, d, n, p), q1) \<Longrightarrow> n \<noteq> e \<Longrightarrow> n \<in> V \<Longrightarrow>
   a_star_loop h g e queue V G c = a_star_loop h g e q1 V G (c + 1)"
  by (simp add: a_star_loop.simps)

lemma a_star_loop_leaf:
  "queue \<noteq> [] \<Longrightarrow> heappop queue = ((f, d, n, p), q1) \<Longrightarrow> n \<noteq> e \<Longrightarrow> n \<notin> V \<Longrightarrow>
   fmlookup g n = None \<Longrightarrow>
   a_star_loop h g e queue V G c = a_star_loop h g e q1 (insert n V) G (c + 1)"
  by (simp add: a_star_loop.simps)

lemma a_star_loop_expand:
  "queue \<noteq> [] \<Longrightarrow> heappop queue = ((f, d, n, p), q1) \<Longrightarrow> n \<noteq> e \<Longrightarrow> n \<notin> V \<Longrightarrow>
   fmlookup g n = Some es \<Longrightarrow> fold (a_star_relax h d n p) es (G, q1) = (G1, q2) \<Longrightarrow>
   a_star_loop h g e queue V G c = a_star_loop h g e q2 (insert n V) G1 (c + 1)"
  by (simp add: a_star_loop.simps)

lemma a_star_loop_cases_induct [case_names empty goal skip leaf expand]:
  assumes empty: "\<And>V G c. P [] V G c"
    and goal: "\<And>queue V G c f d p q1.
        queue \<noteq> [] \<Longrightarrow> heappop queue = ((f, d, e, p), q1) \<Longrightarrow> P queue V G c"
    and skip: "\<And>queue V G c f d n p q1.
        queue \<noteq> [] \<Longrightarrow> heappop queue = ((f, d, n, p), q1) \<Longrightarrow> n \<noteq> e \<Longrightarrow> n \<in> V \<Longrightarrow>
        P q1 V G (c + 1) \<Longrightarrow> P queue V G c"
    and leaf: "\<And>queue V G c f d n p q1.
        queue \<noteq> [] \<Longrightarrow> heappop queue = ((f, d, n, p), q1) \<Longrightarrow> n \<noteq> e \<Longrightarrow> n \<notin> V \<Longrightarrow>
        fmlookup g n = None \<Longrightarrow> P q1 (insert n V) G (c + 1) \<Longrightarrow> P queue V G c"
    and expand: "\<And>queue V G c f d n p q1 es G1 q2.
        queue \<noteq> [] \<Longrightarrow> heappop queue = ((f, d, n, p), q1) \<Longrightarrow> n \<noteq> e \<Longrightarrow> n \<notin> V \<Longrightarrow>
        fmlookup g n = Some es \<Longrightarrow>
        fold (a_star_relax h d n p) es (G, q1) = (G1, q2) \<Longrightarrow>
        P q2 (insert n V) G1 (c + 1) \<Longrightarrow> P queue V G c"
  shows "P (queue :: (real \<times> real \<times> 'a::linorder \<times> ('a, 'l::linorder) path) list) V G (c :: nat)"
proof -
  have "h' = h \<longrightarrow> g' = g \<longrightarrow> e' = e \<longrightarrow> P queue V G c" for h' g' e'
  proof (induction h' g' e' queue V G c rule: a_star_loop.induct)
    case (1 h' g' e' queue V G c)
    show ?case
    proof (intro impI)
      assume eqs: "h' = h" "g' = g" "e' = e"
      show "P queue V G c"
      proof (cases "queue = []")
        case True
        then show ?thesis using empty by simp
      next
        case ne: False
        obtain x q1 where "heappop queue = (x, q1)"
          by (cases "heappop queue")
        moreover obtain f d n p where "x = (f, d, n, p)"
          by (cases x rule: prod_cases4)
        ultimately have pop: "heappop queue = ((f, d, n, p), q1)"
          by simp
        show ?thesis
        proof (cases "n = e")
          case True
          then show ?thesis using goal[OF ne] pop by simp
        next
          case nend: False
          show ?thesis
          proof (cases "n \<in> V")
            case True
            have "P q1 V G (c + 1)"
              using 1(1)[OF ne pop[symmetric] refl refl refl _ True] nend eqs by simp
            then show ?thesis using skip[OF ne pop nend True] by simp
          next
            case nv: False
            show ?thesis
            proof (cases "fmlookup g n")
              case None
              have "P q1 (insert n V) G (c + 1)"
                using 1(2)[OF ne pop[symmetric] refl refl refl _ nv] None nend eqs by simp
              then show ?thesis using leaf[OF ne pop nend nv None] by simp
            next
              case (Some es)
              obtain G1 q2 where fo: "fold (a_star_relax h d n p) es (G, q1) = (G1, q2)"
                by (metis surj_pair)
              have "P q2 (insert n V) G1 (c + 1)"
                using 1(3)[OF ne pop[symmetric] refl refl refl _ nv, of es G1 q2] Some fo nend eqs
                by simp
              then show ?thesis using expand[OF ne pop nend nv Some fo] by simp
            qed
          qed
        qed
      qed
    qed
  qed
  then show ?thesis by simp
qed

subsection \<open>dijkstra is a\_star with the zero estimate\<close>

lemma lift_entry_le:
  "lift_entry x \<le> lift_entry y \<longleftrightarrow> x \<le> (y :: real \<times> 'a::linorder \<times> ('a, 'l::linorder) path)"
  by (cases x; cases y) (auto simp: lift_entry_def)

lemma lift_entry_min:
  "min (lift_entry x) (lift_entry y) = lift_entry (min x (y :: real \<times> 'a::linorder \<times> ('a, 'l::linorder) path))"
  by (simp add: min_def lift_entry_le)

lemma lift_entry_inj: "lift_entry x = lift_entry y \<longleftrightarrow> x = y"
  by (auto simp: lift_entry_def)

lemma min_list_lift:
  "q \<noteq> [] \<Longrightarrow> min_list (map lift_entry q) = lift_entry (min_list (q :: (real \<times> 'a::linorder \<times> ('a, 'l::linorder) path) list))"
proof (induction q)
  case Nil
  then show ?case by simp
next
  case (Cons x q)
  then show ?case by (cases q) (simp_all add: lift_entry_min)
qed

lemma remove1_lift:
  "remove1 (lift_entry m) (map lift_entry q) = map lift_entry (remove1 m q)"
  by (induction q) (simp_all add: lift_entry_inj)

lemma heappop_lift:
  "q \<noteq> [] \<Longrightarrow> heappop q = (m, q1) \<Longrightarrow> heappop (map lift_entry q) = (lift_entry m, map lift_entry q1)"
  by (auto simp: heappop_def min_list_lift remove1_lift)

lemma relax_lift:
  "dijkstra_relax d n p ed (G, q) = (G1, q1) \<Longrightarrow>
   a_star_relax (\<lambda>_. 0) d n p ed (G, map lift_entry q) = (G1, map lift_entry q1)"
  by (auto simp: dijkstra_relax_def a_star_relax_def Let_def heappush_def lift_entry_def split: if_splits)

lemma fold_relax_lift:
  "fold (dijkstra_relax d n p) es (G, q) = (G1, q1) \<Longrightarrow>
   fold (a_star_relax (\<lambda>_. 0) d n p) es (G, map lift_entry q) = (G1, map lift_entry q1)"
proof (induction es arbitrary: G q)
  case Nil
  then show ?case by simp
next
  case (Cons ed es)
  obtain G' q' where r: "dijkstra_relax d n p ed (G, q) = (G', q')"
    by (cases "dijkstra_relax d n p ed (G, q)")
  show ?case using Cons.IH[of G' q'] Cons.prems r relax_lift[OF r] by simp
qed

lemma dijkstra_loop_a_star_loop:
  "dijkstra_loop g e q V G c = a_star_loop (\<lambda>_. 0) g e (map lift_entry q) V G c"
proof (induction g e q V G c rule: dijkstra_loop.induct)
  case (1 g e queue V G c)
  show ?case
  proof (cases "queue = []")
    case True
    then show ?thesis by (simp add: dijkstra_loop.simps a_star_loop_Nil)
  next
    case ne: False
    then have ne': "map lift_entry queue \<noteq> []" by simp
    obtain x q1 where "heappop queue = (x, q1)"
      by (cases "heappop queue")
    moreover obtain d n p where x: "x = (d, n, p)"
      by (cases x rule: prod_cases3)
    ultimately have pop: "heappop queue = ((d, n, p), q1)"
      by simp
    have pop': "heappop (map lift_entry queue) = ((d, d, n, p), map lift_entry q1)"
      using heappop_lift[OF ne pop] by (simp add: lift_entry_def)
    show ?thesis
    proof (cases "n = e")
      case True
      then show ?thesis
        using a_star_loop_end[OF ne', of d d e p] pop pop' ne
        by (simp add: dijkstra_loop.simps)
    next
      case nend: False
      show ?thesis
      proof (cases "n \<in> V")
        case True
        have "dijkstra_loop g e queue V G c = dijkstra_loop g e q1 V G (c + 1)"
          using ne pop nend True by (simp add: dijkstra_loop.simps)
        also have "\<dots> = a_star_loop (\<lambda>_. 0) g e (map lift_entry q1) V G (c + 1)"
          using 1(1)[OF ne pop[symmetric] refl refl nend True] .
        also have "\<dots> = a_star_loop (\<lambda>_. 0) g e (map lift_entry queue) V G c"
          using a_star_loop_skip[OF ne' pop' nend True] by simp
        finally show ?thesis .
      next
        case nv: False
        show ?thesis
        proof (cases "fmlookup g n")
          case None
          have "dijkstra_loop g e queue V G c = dijkstra_loop g e q1 (insert n V) G (c + 1)"
            using ne pop nend nv None by (simp add: dijkstra_loop.simps)
          also have "\<dots> = a_star_loop (\<lambda>_. 0) g e (map lift_entry q1) (insert n V) G (c + 1)"
            using 1(2)[OF ne pop[symmetric] refl refl nend nv None] .
          also have "\<dots> = a_star_loop (\<lambda>_. 0) g e (map lift_entry queue) V G c"
            using a_star_loop_leaf[OF ne' pop' nend nv None] by simp
          finally show ?thesis .
        next
          case (Some es)
          obtain G1 q2 where fo: "fold (dijkstra_relax d n p) es (G, q1) = (G1, q2)"
            by (cases "fold (dijkstra_relax d n p) es (G, q1)")
          have "dijkstra_loop g e queue V G c = dijkstra_loop g e q2 (insert n V) G1 (c + 1)"
            using ne pop nend nv Some fo by (simp add: dijkstra_loop.simps)
          also have "\<dots> = a_star_loop (\<lambda>_. 0) g e (map lift_entry q2) (insert n V) G1 (c + 1)"
            using 1(3)[OF ne pop[symmetric] refl refl nend nv Some fo[symmetric]] .
          also have "\<dots> = a_star_loop (\<lambda>_. 0) g e (map lift_entry queue) V G c"
            using a_star_loop_expand[OF ne' pop' nend nv Some fold_relax_lift[OF fo]] by simp
          finally show ?thesis .
        qed
      qed
    qed
  qed
qed

subsection \<open>Node counts and the shape of a result\<close>

lemma a_star_loop_count_mono: "c \<le> snd (snd (a_star_loop h g e queue V G c))"
proof (induction queue V G c rule: a_star_loop_cases_induct[where h = h and g = g and e = e])
  case (empty V G c)
  show ?case by (simp add: a_star_loop_Nil)
next
  case (goal queue V G c f d p q1)
  then show ?case by (simp add: a_star_loop_end)
next
  case (skip queue V G c f d n p q1)
  then show ?case by (simp add: a_star_loop_skip)
next
  case (leaf queue V G c f d n p q1)
  then show ?case by (simp add: a_star_loop_leaf)
next
  case (expand queue V G c f d n p q1 es G1 q2)
  then show ?case by (simp add: a_star_loop_expand)
qed

lemma a_star_loop_count_pos:
  "queue \<noteq> [] \<Longrightarrow> c + 1 \<le> snd (snd (a_star_loop h g e queue V G c))"
proof (induction queue V G c rule: a_star_loop_cases_induct[where h = h and g = g and e = e])
  case (empty V G c)
  then show ?case by simp
next
  case (goal queue V G c f d p q1)
  then show ?case by (simp add: a_star_loop_end)
next
  case (skip queue V G c f d n p q1)
  then show ?case
    using a_star_loop_count_mono[of "c + 1" h g e q1 V G] by (simp add: a_star_loop_skip)
next
  case (leaf queue V G c f d n p q1)
  then show ?case
    using a_star_loop_count_mono[of "c + 1" h g e q1 "insert n V" G]
    by (simp add: a_star_loop_leaf)
next
  case (expand queue V G c f d n p q1 es G1 q2)
  then show ?case
    using a_star_loop_count_mono[of "c + 1" h g e q2 "insert n V" G1]
    by (simp add: a_star_loop_expand)
qed

lemma a_star_count_pos: "1 \<le> snd (snd (a_star graph s e sd))"
  using a_star_loop_count_pos[of "[(0, 0, s, [])]" 0] by (simp add: a_star_def)

lemma dijkstra_count_pos: "1 \<le> snd (snd (dijkstra graph s e))"
  using a_star_loop_count_pos[of "map lift_entry [(0, s, [])]" 0]
  by (simp add: dijkstra_def dijkstra_loop_a_star_loop)

lemma a_star_loop_shape:
  "(\<exists>k. a_star_loop h g e queue V G c = (PosInf, [], k)) \<or>
   (\<exists>d p k. a_star_loop h g e queue V G c = (Num d, p @ [(e, None)], k))"
proof (induction queue V G c rule: a_star_loop_cases_induct[where h = h and g = g and e = e])
  case (empty V G c)
  show ?case by (simp add: a_star_loop_Nil)
next
  case (goal queue V G c f d p q1)
  then show ?case by (simp add: a_star_loop_end)
next
  case (skip queue V G c f d n p q1)
  then show ?case by (simp add: a_star_loop_skip)
next
  case (leaf queue V G c f d n p q1)
  then show ?case by (simp add: a_star_loop_leaf)
next
  case (expand queue V G c f d n p q1 es G1 q2)
  then show ?case by (simp add: a_star_loop_expand)
qed

lemma heappop_single: "heappop [x] = (x, [])"
  by (simp add: heappop_def)

lemma a_star_same: "a_star graph s s sd = (Num 0, [(s, None)], 1)"
  unfolding a_star_def
  using a_star_loop_end[of "[(0, 0, s, [])]" 0 0 s "[]" "[]"] by (simp add: heappop_single)

lemma dijkstra_same: "dijkstra graph s s = (Num 0, [(s, None)], 1)"
  unfolding dijkstra_def dijkstra_loop_a_star_loop
  using a_star_loop_end[of "[(0, 0, s, [])]" 0 0 s "[]" "[]"]
  by (simp add: heappop_single lift_entry_def)

lemma a_star_loop_start_leaf:
  assumes "s \<noteq> e" "fmlookup graph s = None"
  shows "a_star_loop h graph e [(f, 0, s, [])] {} G 0 = (PosInf, [], 1)"
  using a_star_loop_leaf[of "[(f, 0, s, [])]" f 0 s "[]" "[]" e "{}" graph h G 0] assms
  by (simp add: heappop_single a_star_loop_Nil)

subsection \<open>format\_path\<close>

lemma remdups_adj_snoc:
  "remdups_adj (ys @ [l]) =
     (if remdups_adj ys = [] \<or> last (remdups_adj ys) \<noteq> l then remdups_adj ys @ [l]
      else remdups_adj ys)"
proof (induction ys rule: rev_induct)
  case Nil
  show ?case by simp
next
  case (snoc y ys)
  show ?case by (simp add: remdups_adj_append_two last_remdups_adj)
qed

lemma fold_format_step:
  "fold format_step xs (sp, remdups_adj ys) = (sp @ map fst xs, remdups_adj (ys @ map snd xs))"
proof (induction xs arbitrary: sp ys)
  case Nil
  show ?case by simp
next
  case (Cons x xs)
  obtain st l where x: "x = (st, l)" by (cases x)
  have "format_step x (sp, remdups_adj ys) = (sp @ [st], remdups_adj (ys @ [l]))"
    by (simp add: format_step_def x remdups_adj_snoc)
  then show ?case using Cons.IH[of "sp @ [st]" "ys @ [l]"] by (simp add: x)
qed

lemma format_path_Cons:
  "format_path (x # xs) =
     Route (map fst (x # xs)) (remdups_adj (map snd (butlast (x # xs))))"
proof -
  have "fold format_step (butlast (x # xs)) ([], remdups_adj []) =
      ([] @ map fst (butlast (x # xs)), remdups_adj ([] @ map snd (butlast (x # xs))))"
    by (rule fold_format_step)
  moreover have "map fst (butlast (x # xs)) @ [fst (last (x # xs))] = map fst (x # xs)"
    by (metis append_butlast_last_id list.distinct(1) list.simps(8) list.simps(9) map_append)
  ultimately show ?thesis
    unfolding format_path_def by simp
qed

subsection \<open>The haversine formula\<close>

lemma sin_half_squared: "(sin (x / 2))\<^sup>2 = (1 - cos x) / 2" for x :: real
  using cos_double_sin[of "x / 2"] by simp

lemma cos_mult_cos: "cos a * cos b = (cos (a - b) + cos (a + b)) / 2" for a b :: real
  by (simp add: cos_add cos_diff)

lemma haversine_a_convex:
  "haversine_a lat1 lon1 lat2 lon2 =
     (1 - (sin ((radians lon2 - radians lon1) / 2))\<^sup>2) * ((1 - cos (radians lat2 - radians lat1)) / 2)
     + (sin ((radians lon2 - radians lon1) / 2))\<^sup>2 * ((1 + cos (radians lat1 + radians lat2)) / 2)"
proof -
  define s where "s = (sin ((radians lon2 - radians lon1) / 2))\<^sup>2"
  define cd where "cd = cos (radians lat2 - radians lat1)"
  define cs where "cs = cos (radians lat1 + radians lat2)"
  have "cos (radians lat1 - radians lat2) = cd"
    unfolding cd_def using cos_minus[of "radians lat2 - radians lat1"] by simp
  then have "haversine_a lat1 lon1 lat2 lon2 = (1 - cd) / 2 + (cd + cs) / 2 * s"
    unfolding haversine_a_def Let_def sin_half_squared[of "radians lat2 - radians lat1"]
      cos_mult_cos s_def cd_def cs_def by simp
  also have "\<dots> = (1 - s) * ((1 - cd) / 2) + s * ((1 + cs) / 2)"
    by (simp add: field_simps)
  finally show ?thesis
    unfolding s_def cd_def cs_def .
qed

lemma haversine_a_bounds:
  "0 \<le> haversine_a lat1 lon1 lat2 lon2 \<and> haversine_a lat1 lon1 lat2 lon2 \<le> 1"
proof -
  define s where "s = (sin ((radians lon2 - radians lon1) / 2))\<^sup>2"
  define u where "u = (1 - cos (radians lat2 - radians lat1)) / 2"
  define v where "v = (1 + cos (radians lat1 + radians lat2)) / 2"
  have s: "0 \<le> s" "s \<le> 1"
    unfolding s_def by (simp_all add: abs_square_le_1)
  have u: "0 \<le> u \<and> u \<le> 1"
    unfolding u_def
    using cos_ge_minus_one[of "radians lat2 - radians lat1"]
      cos_le_one[of "radians lat2 - radians lat1"] by argo
  have v: "0 \<le> v \<and> v \<le> 1"
    unfolding v_def
    using cos_ge_minus_one[of "radians lat1 + radians lat2"]
      cos_le_one[of "radians lat1 + radians lat2"] by argo
  have a: "haversine_a lat1 lon1 lat2 lon2 = (1 - s) * u + s * v"
    unfolding s_def u_def v_def by (rule haversine_a_convex)
  have "0 \<le> (1 - s) * u" "0 \<le> s * v"
    using s u v by simp_all
  moreover have "(1 - s) * u \<le> (1 - s) * 1" "s * v \<le> s * 1"
    using s u v by (intro mult_left_mono; simp)+
  ultimately show ?thesis unfolding a by simp
qed



lemma haversine_a_same: "haversine_a lat1 lon1 lat1 lon1 = 0"
  by (simp add: haversine_a_def)

section \<open>Correctness of the search\<close>

text \<open>
  The loop invariant, for states in which the start station has been expanded: the queue
  entries and the table hold costs of real walks, every open station with a finite table
  entry has that entry queued, and every closed station has its minimum cost in the table
  and all its edges relaxed.
\<close>

definition search_inv ::
  "('a \<Rightarrow> real) \<Rightarrow> ('a, 'l) graph \<Rightarrow> 'a \<Rightarrow> 'a \<Rightarrow> (real \<times> real \<times> 'a \<times> ('a, 'l) path) list
     \<Rightarrow> 'a set \<Rightarrow> ('a \<rightharpoonup> cost) \<Rightarrow> bool" where
  "search_inv h graph s e Q V G \<longleftrightarrow>
     s \<in> V \<and> e \<notin> V \<and>
     (\<forall>f d n p. (f, d, n, p) \<in> set Q \<longrightarrow>
        f = d + h n \<and> walk graph s d n \<and> \<not> lt_cost d (get_inf G n)) \<and>
     (\<forall>n d. get_inf G n = Num d \<longrightarrow> walk graph s d n) \<and>
     (\<forall>n d. n \<notin> V \<longrightarrow> get_inf G n = Num d \<longrightarrow> (\<exists>p. (d + h n, d, n, p) \<in> set Q)) \<and>
     (\<forall>v \<in> V. \<exists>dv. get_inf G v = Num dv \<and> (\<forall>c. walk graph s c v \<longrightarrow> dv \<le> c) \<and>
        (\<forall>ed \<in> set (edges_of graph v). \<not> lt_cost (dv + distance ed) (get_inf G (to ed))))"

lemma not_lt_cost: "\<not> lt_cost x c \<longleftrightarrow> (\<exists>y. c = Num y \<and> y \<le> x)"
  by (cases c) (auto simp: lt_cost_def)

lemma edges_of_Some: "fmlookup graph u = Some es \<Longrightarrow> edges_of graph u = es"
  by (simp add: edges_of_def)

lemma edges_of_None: "fmlookup graph u = None \<Longrightarrow> edges_of graph u = []"
  by (simp add: edges_of_def)

lemma edges_of_dom: "ed \<in> set (edges_of graph u) \<Longrightarrow> u \<in> fmdom' graph"
  by (cases "fmlookup graph u") (auto simp: edges_of_def intro: fmdom'I)

lemma consistentD:
  "consistent h graph \<Longrightarrow> ed \<in> set (edges_of graph u) \<Longrightarrow> h u \<le> distance ed + h (to ed)"
  using edges_of_dom[of ed graph u] by (auto simp: consistent_def)

lemma consistent_walk:
  assumes "consistent h graph" "walk graph s c t"
  shows "h s \<le> c + h t"
  using assms(2)
proof (induction rule: walk.induct)
  case walk_start
  show ?case by simp
next
  case (walk_edge c u ed)
  then show ?case using consistentD[OF assms(1), of ed u] by simp
qed

subsection \<open>Relaxing the edges of a station\<close>

lemma relax_queue_grows:
  "a_star_relax h d n p ed (G, q) = (G', q') \<Longrightarrow> set q \<subseteq> set q'"
  by (auto simp: a_star_relax_def Let_def heappush_def split: if_splits)

lemma relax_new_entry:
  "a_star_relax h d n p ed (G, q) = (G', q') \<Longrightarrow> x \<in> set q' \<Longrightarrow>
   x \<in> set q \<or>
   x = (d + distance ed + h (to ed), d + distance ed, to ed, p @ [(n, Some (line ed))])"
  by (auto simp: a_star_relax_def Let_def heappush_def split: if_splits)

lemma relax_table_source:
  "a_star_relax h d n p ed (G, q) = (G', q') \<Longrightarrow> get_inf G' m = Num d' \<Longrightarrow>
   get_inf G m = Num d' \<or>
   (to ed = m \<and> d' = d + distance ed \<and> (\<exists>p'. (d' + h m, d', m, p') \<in> set q'))"
  by (auto simp: a_star_relax_def Let_def heappush_def get_inf_def split: if_splits)

lemma relax_table_decreases:
  "a_star_relax h d n p ed (G, q) = (G', q') \<Longrightarrow> \<not> lt_cost x (get_inf G m) \<Longrightarrow>
   \<not> lt_cost x (get_inf G' m)"
  by (auto simp: a_star_relax_def Let_def get_inf_def lt_cost_def split: if_splits cost.splits option.splits)

lemma relax_edge_done:
  "a_star_relax h d n p ed (G, q) = (G', q') \<Longrightarrow>
   \<not> lt_cost (d + distance ed) (get_inf G' (to ed))"
  by (auto simp: a_star_relax_def Let_def get_inf_def lt_cost_def split: if_splits cost.splits option.splits)

lemma fold_relax_queue_grows:
  "fold (a_star_relax h d n p) es (G, q) = (G1, q2) \<Longrightarrow> set q \<subseteq> set q2"
proof (induction es arbitrary: G q)
  case Nil
  then show ?case by simp
next
  case (Cons ed es)
  obtain G' q' where r: "a_star_relax h d n p ed (G, q) = (G', q')"
    by (cases "a_star_relax h d n p ed (G, q)")
  then have "set q' \<subseteq> set q2" using Cons by simp
  then show ?case using relax_queue_grows[OF r] by blast
qed

lemma fold_relax_table_decreases:
  "fold (a_star_relax h d n p) es (G, q) = (G1, q2) \<Longrightarrow> \<not> lt_cost x (get_inf G m) \<Longrightarrow>
   \<not> lt_cost x (get_inf G1 m)"
proof (induction es arbitrary: G q)
  case Nil
  then show ?case by simp
next
  case (Cons ed es)
  obtain G' q' where r: "a_star_relax h d n p ed (G, q) = (G', q')"
    by (cases "a_star_relax h d n p ed (G, q)")
  have "\<not> lt_cost x (get_inf G' m)" using relax_table_decreases[OF r Cons.prems(2)] .
  then show ?case using Cons.IH[of G' q'] Cons.prems(1) r by simp
qed

lemma fold_relax_new_entry:
  "fold (a_star_relax h d n p) es (G, q) = (G1, q2) \<Longrightarrow> x \<in> set q2 \<Longrightarrow>
   x \<in> set q \<or>
   (\<exists>ed \<in> set es.
      x = (d + distance ed + h (to ed), d + distance ed, to ed, p @ [(n, Some (line ed))]))"
proof (induction es arbitrary: G q)
  case Nil
  then show ?case by simp
next
  case (Cons ed es)
  obtain G' q' where r: "a_star_relax h d n p ed (G, q) = (G', q')"
    by (cases "a_star_relax h d n p ed (G, q)")
  have "x \<in> set q' \<or> (\<exists>ed \<in> set es.
      x = (d + distance ed + h (to ed), d + distance ed, to ed, p @ [(n, Some (line ed))]))"
    using Cons.IH[of G' q'] Cons.prems r by simp
  then show ?case using relax_new_entry[OF r, of x] by auto
qed

lemma fold_relax_table_source:
  "fold (a_star_relax h d n p) es (G, q) = (G1, q2) \<Longrightarrow> get_inf G1 m = Num d' \<Longrightarrow>
   get_inf G m = Num d' \<or>
   ((\<exists>ed \<in> set es. to ed = m \<and> d' = d + distance ed) \<and>
    (\<exists>p'. (d' + h m, d', m, p') \<in> set q2))"
proof (induction es arbitrary: G q)
  case Nil
  then show ?case by simp
next
  case (Cons ed es)
  obtain G' q' where r: "a_star_relax h d n p ed (G, q) = (G', q')"
    by (cases "a_star_relax h d n p ed (G, q)")
  have rest: "fold (a_star_relax h d n p) es (G', q') = (G1, q2)"
    using Cons.prems(1) r by simp
  have "get_inf G' m = Num d' \<or>
   ((\<exists>ed \<in> set es. to ed = m \<and> d' = d + distance ed) \<and>
    (\<exists>p'. (d' + h m, d', m, p') \<in> set q2))"
    using Cons.IH[OF rest Cons.prems(2)] .
  then show ?case
  proof
    assume "get_inf G' m = Num d'"
    then show ?thesis
      using relax_table_source[OF r, of m d'] fold_relax_queue_grows[OF rest] by auto
  next
    assume "(\<exists>ed \<in> set es. to ed = m \<and> d' = d + distance ed) \<and>
      (\<exists>p'. (d' + h m, d', m, p') \<in> set q2)"
    then show ?thesis by auto
  qed
qed

lemma fold_relax_edges_done:
  "fold (a_star_relax h d n p) es (G, q) = (G1, q2) \<Longrightarrow> ed \<in> set es \<Longrightarrow>
   \<not> lt_cost (d + distance ed) (get_inf G1 (to ed))"
proof (induction es arbitrary: G q)
  case Nil
  then show ?case by simp
next
  case (Cons ed' es)
  obtain G' q' where r: "a_star_relax h d n p ed' (G, q) = (G', q')"
    by (cases "a_star_relax h d n p ed' (G, q)")
  have rest: "fold (a_star_relax h d n p) es (G', q') = (G1, q2)"
    using Cons.prems(1) r by simp
  show ?case
  proof (cases "ed = ed'")
    case True
    then show ?thesis
      using relax_edge_done[OF r] fold_relax_table_decreases[OF rest] by simp
  next
    case False
    then show ?thesis using Cons.IH[OF rest] Cons.prems(2) by simp
  qed
qed

subsection \<open>The invariant is kept and gives the minimum\<close>

lemma heappop_member:
  assumes "Q \<noteq> []" "heappop Q = (x, q1)"
  shows "x \<in> set Q" and "\<forall>y \<in> set Q. x \<le> y" and "set q1 \<subseteq> set Q"
    and "\<forall>y \<in> set Q. y \<noteq> x \<longrightarrow> y \<in> set q1"
proof -
  have x: "x = min_list Q" and q1: "q1 = remove1 x Q"
    using assms(2) unfolding heappop_def by auto
  show "x \<in> set Q"
    unfolding x using assms(1) by (rule min_list_in_set)
  have "x = Min (set Q)"
    unfolding x using assms(1) by (rule min_list_Min)
  then show "\<forall>y \<in> set Q. x \<le> y"
    by simp
  show "set q1 \<subseteq> set Q"
    unfolding q1 by (rule set_remove1_subset)
  show "\<forall>y \<in> set Q. y \<noteq> x \<longrightarrow> y \<in> set q1"
    unfolding q1 by (simp add: in_set_remove1)
qed

lemma fst_le_of_le: "x \<le> y \<Longrightarrow> fst x \<le> fst (y :: 'a::linorder \<times> 'b::linorder)"
  by (auto simp: less_eq_prod_def)

lemma frontier:
  assumes cons: "consistent h graph"
    and inv: "search_inv h graph s e Q V G"
    and w: "walk graph s c t"
  shows "t \<notin> V \<longrightarrow> (\<exists>x \<in> set Q. fst x \<le> c + h t)"
  using w
proof (induction rule: walk.induct)
  case walk_start
  show ?case using inv by (simp add: search_inv_def)
next
  case (walk_edge c u ed)
  show ?case
  proof
    assume tv: "to ed \<notin> V"
    show "\<exists>x \<in> set Q. fst x \<le> c + distance ed + h (to ed)"
    proof (cases "u \<in> V")
      case True
      then obtain dv where dv: "get_inf G u = Num dv" "\<forall>c. walk graph s c u \<longrightarrow> dv \<le> c"
        "\<forall>ed \<in> set (edges_of graph u). \<not> lt_cost (dv + distance ed) (get_inf G (to ed))"
        using inv unfolding search_inv_def by blast
      have "dv \<le> c" using dv(2) walk_edge.hyps(1) by simp
      moreover obtain y where y: "get_inf G (to ed) = Num y" "y \<le> dv + distance ed"
        using dv(3) walk_edge.hyps(2) not_lt_cost by blast
      moreover obtain p where "(y + h (to ed), y, to ed, p) \<in> set Q"
        using inv tv y(1) unfolding search_inv_def by blast
      ultimately show ?thesis by force
    next
      case False
      then obtain x where x: "x \<in> set Q" "fst x \<le> c + h u"
        using walk_edge.IH by blast
      moreover have "h u \<le> distance ed + h (to ed)"
        using consistentD[OF cons walk_edge.hyps(2)] .
      ultimately show ?thesis by force
    qed
  qed
qed

lemma popped_optimal:
  assumes cons: "consistent h graph"
    and inv: "search_inv h graph s e Q V G"
    and ne: "Q \<noteq> []" and pop: "heappop Q = ((f, d, n, p), q1)"
    and nv: "n \<notin> V"
  shows "walk graph s d n" and "\<forall>c. walk graph s c n \<longrightarrow> d \<le> c" and "get_inf G n = Num d"
proof -
  have mem: "(f, d, n, p) \<in> set Q" and least: "\<forall>y \<in> set Q. (f, d, n, p) \<le> y"
    using heappop_member[OF ne pop] by simp_all
  have x: "f = d + h n" "walk graph s d n" "\<not> lt_cost d (get_inf G n)"
    using inv mem unfolding search_inv_def by blast+
  show "walk graph s d n" by (rule x(2))
  show opt: "\<forall>c. walk graph s c n \<longrightarrow> d \<le> c"
  proof (intro allI impI)
    fix c assume "walk graph s c n"
    then obtain y where y: "y \<in> set Q" "fst y \<le> c + h n"
      using frontier[OF cons inv] nv by blast
    have "f \<le> fst y" using least y(1) fst_le_of_le[of "(f, d, n, p)" y] by simp
    then show "d \<le> c" using x(1) y(2) by simp
  qed
  obtain y where y: "get_inf G n = Num y" "y \<le> d"
    using x(3) not_lt_cost by blast
  have "walk graph s y n" using inv y(1) unfolding search_inv_def by blast
  then have "d \<le> y" using opt by simp
  then show "get_inf G n = Num d" using y by simp
qed

lemma inv_after_expand:
  assumes ends: "e \<notin> V" "n \<noteq> e" "s \<in> insert n V"
    and entries: "\<forall>f d' m p'. (f, d', m, p') \<in> set q1 \<longrightarrow>
        f = d' + h m \<and> walk graph s d' m \<and> \<not> lt_cost d' (get_inf G m)"
    and table: "\<forall>m d'. get_inf G m = Num d' \<longrightarrow> walk graph s d' m"
    and open_nodes: "\<forall>m d'. m \<notin> insert n V \<longrightarrow> get_inf G m = Num d' \<longrightarrow>
        (\<exists>p'. (d' + h m, d', m, p') \<in> set q1)"
    and closed: "\<forall>v \<in> V. \<exists>dv. get_inf G v = Num dv \<and> (\<forall>c. walk graph s c v \<longrightarrow> dv \<le> c) \<and>
        (\<forall>ed \<in> set (edges_of graph v). \<not> lt_cost (dv + distance ed) (get_inf G (to ed)))"
    and popped: "walk graph s d n" "\<forall>c. walk graph s c n \<longrightarrow> d \<le> c" "get_inf G n = Num d"
    and fo: "fold (a_star_relax h d n p) (edges_of graph n) (G, q1) = (G1, q2)"
  shows "search_inv h graph s e q2 (insert n V) G1"
proof -
  have table1: "walk graph s d' m" if "get_inf G1 m = Num d'" for m d'
  proof -
    have "get_inf G m = Num d' \<or>
        (\<exists>ed \<in> set (edges_of graph n). to ed = m \<and> d' = d + distance ed)"
      using fold_relax_table_source[OF fo that] by blast
    then show ?thesis
    proof
      assume "get_inf G m = Num d'"
      then show ?thesis using table by blast
    next
      assume "\<exists>ed \<in> set (edges_of graph n). to ed = m \<and> d' = d + distance ed"
      then obtain ed where "ed \<in> set (edges_of graph n)" "to ed = m" "d' = d + distance ed"
        by blast
      then show ?thesis using walk_edge[OF popped(1), of ed] by simp
    qed
  qed
  have stable: "get_inf G1 v = Num dv"
    if "get_inf G v = Num dv" "\<forall>c. walk graph s c v \<longrightarrow> dv \<le> c" for v dv
  proof -
    have "\<not> lt_cost dv (get_inf G v)" using that(1) by (simp add: lt_cost_def)
    then have "\<not> lt_cost dv (get_inf G1 v)" by (rule fold_relax_table_decreases[OF fo])
    then obtain y where y: "get_inf G1 v = Num y" "y \<le> dv"
      using not_lt_cost by blast
    then have "dv \<le> y" using table1[of v y] that(2) by simp
    then show ?thesis using y by simp
  qed
  have entries1: "f = d' + h m \<and> walk graph s d' m \<and> \<not> lt_cost d' (get_inf G1 m)"
    if "(f, d', m, p') \<in> set q2" for f d' m p'
  proof -
    have "(f, d', m, p') \<in> set q1 \<or> (\<exists>ed \<in> set (edges_of graph n).
        (f, d', m, p') = (d + distance ed + h (to ed), d + distance ed, to ed,
           p @ [(n, Some (line ed))]))"
      using fold_relax_new_entry[OF fo that] .
    then show ?thesis
    proof
      assume "(f, d', m, p') \<in> set q1"
      then show ?thesis using entries fold_relax_table_decreases[OF fo] by blast
    next
      assume "\<exists>ed \<in> set (edges_of graph n).
        (f, d', m, p') = (d + distance ed + h (to ed), d + distance ed, to ed,
           p @ [(n, Some (line ed))])"
      then obtain ed where ed: "ed \<in> set (edges_of graph n)" "f = d + distance ed + h (to ed)"
        "d' = d + distance ed" "m = to ed"
        by blast
      then show ?thesis
        using walk_edge[OF popped(1) ed(1)] fold_relax_edges_done[OF fo ed(1)] by simp
    qed
  qed
  have open1: "\<exists>p'. (d' + h m, d', m, p') \<in> set q2"
    if "m \<notin> insert n V" "get_inf G1 m = Num d'" for m d'
  proof -
    have "get_inf G m = Num d' \<or> (\<exists>p'. (d' + h m, d', m, p') \<in> set q2)"
      using fold_relax_table_source[OF fo that(2)] by blast
    then show ?thesis
      using open_nodes that(1) fold_relax_queue_grows[OF fo] by blast
  qed
  have closed1: "\<exists>dv. get_inf G1 v = Num dv \<and> (\<forall>c. walk graph s c v \<longrightarrow> dv \<le> c) \<and>
        (\<forall>ed \<in> set (edges_of graph v). \<not> lt_cost (dv + distance ed) (get_inf G1 (to ed)))"
    if "v \<in> insert n V" for v
  proof (cases "v = n")
    case True
    then show ?thesis
      using stable[OF popped(3) popped(2)] popped(2) fold_relax_edges_done[OF fo] by blast
  next
    case False
    then have "v \<in> V" using that by simp
    then obtain dv where dv: "get_inf G v = Num dv" "\<forall>c. walk graph s c v \<longrightarrow> dv \<le> c"
      "\<forall>ed \<in> set (edges_of graph v). \<not> lt_cost (dv + distance ed) (get_inf G (to ed))"
      using closed by blast
    then show ?thesis
      using stable[OF dv(1) dv(2)] fold_relax_table_decreases[OF fo] by blast
  qed
  show ?thesis
    unfolding search_inv_def
    using ends entries1 table1 open1 closed1 by blast
qed

lemma inv_after_skip:
  assumes inv: "search_inv h graph s e Q V G"
    and ne: "Q \<noteq> []" and pop: "heappop Q = ((f, d, n, p), q1)" and nv: "n \<in> V"
  shows "search_inv h graph s e q1 V G"
proof -
  have sub: "set q1 \<subseteq> set Q" and keep: "\<forall>y \<in> set Q. y \<noteq> (f, d, n, p) \<longrightarrow> y \<in> set q1"
    using heappop_member[OF ne pop] by simp_all
  have "\<exists>p'. (d' + h m, d', m, p') \<in> set q1"
    if mv: "m \<notin> V" and gm: "get_inf G m = Num d'" for m d'
  proof -
    obtain p' where "(d' + h m, d', m, p') \<in> set Q"
      using inv mv gm unfolding search_inv_def by blast
    moreover have "(d' + h m, d', m, p') \<noteq> (f, d, n, p)" using mv nv by auto
    ultimately show ?thesis using keep by blast
  qed
  then show ?thesis
    using inv sub unfolding search_inv_def by blast
qed

lemma inv_after_pop:
  assumes cons: "consistent h graph"
    and inv: "search_inv h graph s e Q V G"
    and ne: "Q \<noteq> []" and pop: "heappop Q = ((f, d, n, p), q1)"
    and nend: "n \<noteq> e" and nv: "n \<notin> V"
    and fo: "fold (a_star_relax h d n p) (edges_of graph n) (G, q1) = (G1, q2)"
  shows "search_inv h graph s e q2 (insert n V) G1"
proof (rule inv_after_expand[OF _ nend _ _ _ _ _ popped_optimal[OF cons inv ne pop nv] fo])
  have sub: "set q1 \<subseteq> set Q" and keep: "\<forall>y \<in> set Q. y \<noteq> (f, d, n, p) \<longrightarrow> y \<in> set q1"
    using heappop_member[OF ne pop] by simp_all
  show "e \<notin> V" and "s \<in> insert n V"
    using inv unfolding search_inv_def by simp_all
  show "\<forall>f d' m p'. (f, d', m, p') \<in> set q1 \<longrightarrow>
        f = d' + h m \<and> walk graph s d' m \<and> \<not> lt_cost d' (get_inf G m)"
    using inv sub unfolding search_inv_def by blast
  show "\<forall>m d'. get_inf G m = Num d' \<longrightarrow> walk graph s d' m"
    using inv unfolding search_inv_def by blast
  show "\<forall>m d'. m \<notin> insert n V \<longrightarrow> get_inf G m = Num d' \<longrightarrow>
        (\<exists>p'. (d' + h m, d', m, p') \<in> set q1)"
  proof (intro allI impI)
    fix m d' assume mv: "m \<notin> insert n V" and gm: "get_inf G m = Num d'"
    then obtain p' where "(d' + h m, d', m, p') \<in> set Q"
      using inv unfolding search_inv_def by blast
    moreover have "(d' + h m, d', m, p') \<noteq> (f, d, n, p)" using mv by auto
    ultimately show "\<exists>p'. (d' + h m, d', m, p') \<in> set q1" using keep by blast
  qed
  show "\<forall>v \<in> V. \<exists>dv. get_inf G v = Num dv \<and> (\<forall>c. walk graph s c v \<longrightarrow> dv \<le> c) \<and>
        (\<forall>ed \<in> set (edges_of graph v). \<not> lt_cost (dv + distance ed) (get_inf G (to ed)))"
    using inv unfolding search_inv_def by blast
qed

lemma a_star_loop_correct:
  assumes cons: "consistent h graph"
  shows "search_inv h graph s e Q V G \<longrightarrow>
    is_min_cost graph s e (fst (a_star_loop h graph e Q V G c))"
proof (induction Q V G c rule: a_star_loop_cases_induct[where h = h and g = graph and e = e])
  case (empty V G c)
  show ?case
  proof
    assume inv: "search_inv h graph s e [] V G"
    have "\<not> walk graph s d e" for d
      using frontier[OF cons inv, of d e] inv unfolding search_inv_def by auto
    then show "is_min_cost graph s e (fst (a_star_loop h graph e [] V G c))"
      by (simp add: a_star_loop_Nil is_min_cost_def)
  qed
next
  case (goal queue V G c f d p q1)
  show ?case
  proof
    assume inv: "search_inv h graph s e queue V G"
    have "e \<notin> V" using inv unfolding search_inv_def by simp
    then have "walk graph s d e" "\<forall>c. walk graph s c e \<longrightarrow> d \<le> c"
      using popped_optimal[OF cons inv goal(1) goal(2)] by simp_all
    then show "is_min_cost graph s e (fst (a_star_loop h graph e queue V G c))"
      using a_star_loop_end[OF goal(1) goal(2)] by (simp add: is_min_cost_def)
  qed
next
  case (skip queue V G c f d n p q1)
  show ?case
  proof
    assume inv: "search_inv h graph s e queue V G"
    have "search_inv h graph s e q1 V G"
      using inv_after_skip[OF inv skip(1) skip(2) skip(4)] .
    then show "is_min_cost graph s e (fst (a_star_loop h graph e queue V G c))"
      using skip.IH a_star_loop_skip[OF skip(1) skip(2) skip(3) skip(4)] by simp
  qed
next
  case (leaf queue V G c f d n p q1)
  show ?case
  proof
    assume inv: "search_inv h graph s e queue V G"
    have fo: "fold (a_star_relax h d n p) (edges_of graph n) (G, q1) = (G, q1)"
      using leaf(5) by (simp add: edges_of_None)
    have "search_inv h graph s e q1 (insert n V) G"
      using inv_after_pop[OF cons inv leaf(1) leaf(2) leaf(3) leaf(4) fo] .
    then show "is_min_cost graph s e (fst (a_star_loop h graph e queue V G c))"
      using leaf.IH a_star_loop_leaf[OF leaf(1) leaf(2) leaf(3) leaf(4) leaf(5)] by simp
  qed
next
  case (expand queue V G c f d n p q1 es G1 q2)
  show ?case
  proof
    assume inv: "search_inv h graph s e queue V G"
    have fo: "fold (a_star_relax h d n p) (edges_of graph n) (G, q1) = (G1, q2)"
      using expand(5) expand(6) by (simp add: edges_of_Some)
    have "search_inv h graph s e q2 (insert n V) G1"
      using inv_after_pop[OF cons inv expand(1) expand(2) expand(3) expand(4) fo] .
    then show "is_min_cost graph s e (fst (a_star_loop h graph e queue V G c))"
      using expand.IH
        a_star_loop_expand[OF expand(1) expand(2) expand(3) expand(4) expand(5) expand(6)]
      by simp
  qed
qed

lemma get_inf_init_table:
  "get_inf (init_table graph s) m = (if m = s then Num 0 else PosInf)"
  by (simp add: get_inf_def init_table_def)

lemma a_star_loop_initial:
  assumes cons: "consistent h graph"
  shows "is_min_cost graph s e
    (fst (a_star_loop h graph e [(f0, 0, s, [])] {} (init_table graph s) 0))"
proof (cases "s = e")
  case True
  have "0 \<le> d" if "walk graph s d s" for d
    using consistent_walk[OF cons that] by simp
  then show ?thesis
    using a_star_loop_end[of "[(f0, 0, s, [])]" f0 0 e "[]" "[]" h graph "{}"] True
    by (simp add: heappop_single is_min_cost_def walk_start)
next
  case False
  obtain G1 q2 where
    fo: "fold (a_star_relax h 0 s []) (edges_of graph s) (init_table graph s, []) = (G1, q2)"
    by (cases "fold (a_star_relax h 0 s []) (edges_of graph s) (init_table graph s, [])")
  have opt: "\<forall>c. walk graph s c s \<longrightarrow> 0 \<le> c"
    using consistent_walk[OF cons] by force
  have inv: "search_inv h graph s e q2 (insert s {}) G1"
  proof (rule inv_after_expand[OF _ False _ _ _ _ _ walk_start opt _ fo])
    show "e \<notin> {}" and "s \<in> insert s {}"
      by simp_all
    show "\<forall>f d' m p'. (f, d', m, p') \<in> set [] \<longrightarrow>
        f = d' + h m \<and> walk graph s d' m \<and> \<not> lt_cost d' (get_inf (init_table graph s) m)"
      by simp
    show "\<forall>m d'. get_inf (init_table graph s) m = Num d' \<longrightarrow> walk graph s d' m"
      by (auto simp: get_inf_init_table walk_start split: if_splits)
    show "\<forall>m d'. m \<notin> insert s {} \<longrightarrow> get_inf (init_table graph s) m = Num d' \<longrightarrow>
        (\<exists>p'. (d' + h m, d', m, p') \<in> set [])"
      by (simp add: get_inf_init_table)
    show "\<forall>v \<in> {}. \<exists>dv. get_inf (init_table graph s) v = Num dv \<and>
        (\<forall>c. walk graph s c v \<longrightarrow> dv \<le> c) \<and>
        (\<forall>ed \<in> set (edges_of graph v).
           \<not> lt_cost (dv + distance ed) (get_inf (init_table graph s) (to ed)))"
      by simp
    show "get_inf (init_table graph s) s = Num 0"
      by (simp add: get_inf_init_table)
  qed
  have step: "a_star_loop h graph e [(f0, 0, s, [])] {} (init_table graph s) 0
      = a_star_loop h graph e q2 (insert s {}) G1 (0 + 1)"
  proof (cases "fmlookup graph s")
    case None
    then have "G1 = init_table graph s" "q2 = []"
      using fo by (simp_all add: edges_of_None)
    then show ?thesis
      using a_star_loop_leaf[of "[(f0, 0, s, [])]" f0 0 s "[]" "[]" e "{}" graph h] False None
      by (simp add: heappop_single)
  next
    case (Some es)
    then have "fold (a_star_relax h 0 s []) es (init_table graph s, []) = (G1, q2)"
      using fo by (simp add: edges_of_Some)
    then show ?thesis
      using a_star_loop_expand[of "[(f0, 0, s, [])]" f0 0 s "[]" "[]" e "{}" graph es h] False Some
      by (simp add: heappop_single)
  qed
  show ?thesis
    unfolding step using a_star_loop_correct[OF cons] inv by blast
qed

lemma nonneg_consistent_zero: "nonneg_weights graph \<Longrightarrow> consistent (\<lambda>_. 0) graph"
  by (simp add: nonneg_weights_def consistent_def)

lemma dijkstra_is_min_cost:
  "nonneg_weights graph \<Longrightarrow> is_min_cost graph s e (fst (dijkstra graph s e))"
  unfolding dijkstra_def dijkstra_loop_a_star_loop
  using a_star_loop_initial[OF nonneg_consistent_zero, of graph s e 0]
  by (simp add: lift_entry_def)

lemma a_star_is_min_cost:
  "heuristic_consistent graph e sd \<Longrightarrow> is_min_cost graph s e (fst (a_star graph s e sd))"
  unfolding a_star_def
  using a_star_loop_initial[of "\<lambda>n. heuristic n e sd" graph s e 0]
  by (simp add: heuristic_consistent_def consistent_def)

lemma is_min_cost_unique:
  "is_min_cost graph s e c1 \<Longrightarrow> is_min_cost graph s e c2 \<Longrightarrow> c1 = c2"
  by (cases c1; cases c2) (auto simp: is_min_cost_def intro: antisym)

lemma a_star_zero_estimate:
  assumes "\<forall>n. heuristic n e sd = 0"
  shows "a_star graph s e sd = dijkstra graph s e"
proof -
  have "(\<lambda>n. heuristic n e sd) = (\<lambda>_. 0)" using assms by auto
  then show ?thesis
    unfolding a_star_def dijkstra_def dijkstra_loop_a_star_loop by (simp add: lift_entry_def)
qed

section \<open>Runs on the example networks\<close>

lemma dijkstra_loop_Nil: "dijkstra_loop g e [] V M c = (PosInf, [], c)"
  by (simp add: dijkstra_loop.simps)

lemmas dijkstra_loop_Cons = dijkstra_loop.simps[of _ _ "x # q" for x q]

lemmas a_star_loop_Cons = a_star_loop.simps[of _ _ _ "x # q" for x q]

lemmas run_simps = dijkstra_def a_star_def init_table_def heappop_def heappush_def
  dijkstra_relax_def a_star_relax_def get_inf_def lt_cost_def Let_def
  dijkstra_loop_Nil dijkstra_loop_Cons a_star_loop_Nil a_star_loop_Cons

lemma haversine_half_turn: "haversine 0 0 0 180 = 6371 * pi"
  by (simp add: haversine_def haversine_a_def radians_def Let_def)

lemma haversine_same: "haversine lat1 lon1 lat1 lon1 = 0"
  by (simp add: haversine_def haversine_a_same)

lemma equator_heuristic:
  "heuristic ''S'' ''E'' equator_stations = 6371 * pi"
  "heuristic ''M'' ''E'' equator_stations = 6371 * pi"
  "heuristic ''E'' ''E'' equator_stations = 0"
  by (simp_all add: heuristic_def equator_stations_def haversine_half_turn haversine_same)

lemma shortcut_heuristic:
  "heuristic ''S'' ''E'' shortcut_stations = 0"
  "heuristic ''A'' ''E'' shortcut_stations = 6371 * pi"
  "heuristic ''B'' ''E'' shortcut_stations = 0"
  "heuristic ''E'' ''E'' shortcut_stations = 0"
  by (simp_all add: heuristic_def shortcut_stations_def haversine_half_turn haversine_same)

lemma shortcut_dijkstra:
  "dijkstra shortcut_graph ''S'' ''E'' =
     (Num 30002,
      [(''S'', Some ''Red''), (''A'', Some ''Red''), (''B'', Some ''Red''), (''E'', None)], 5)"
  by (simp add: run_simps shortcut_graph_def)

lemma shortcut_a_star:
  "a_star shortcut_graph ''S'' ''E'' shortcut_stations =
     (Num 30003, [(''S'', Some ''Blue''), (''B'', Some ''Red''), (''E'', None)], 5)"
  using pi_ge_two pi_less_4
  by (simp add: run_simps shortcut_graph_def shortcut_heuristic)

lemma shortcut_nonneg: "nonneg_weights shortcut_graph"
  by (simp add: nonneg_weights_def shortcut_graph_def edges_of_def)

lemma shortcut_heuristic_le:
  "heuristic n ''E'' shortcut_stations
     \<le> (if n = ''S'' then 30002 else if n = ''A'' then 30001 else if n = ''B'' then 30000 else 0)"
  using pi_less_4
  by (simp add: heuristic_def shortcut_stations_def haversine_half_turn haversine_same)

lemma shortcut_exact_consistent:
  "consistent (\<lambda>n. if n = ''S'' then 30002 else if n = ''A'' then 30001
       else if n = ''B'' then 30000 else (0 :: real)) shortcut_graph"
  by (simp add: consistent_def shortcut_graph_def edges_of_def)

lemma shortcut_admissible: "heuristic_admissible shortcut_graph ''E'' shortcut_stations"
  unfolding heuristic_admissible_def
proof (intro allI impI)
  fix n c assume "walk shortcut_graph n c ''E''"
  then have "(if n = ''S'' then 30002 else if n = ''A'' then 30001
       else if n = ''B'' then 30000 else (0 :: real)) \<le> c"
    using consistent_walk[OF shortcut_exact_consistent, of n c "''E''"] by simp
  then show "heuristic n ''E'' shortcut_stations \<le> c"
    using shortcut_heuristic_le[of n] by linarith
qed

lemma detour_heuristic:
  "heuristic ''S'' ''E'' detour_stations = 0"
  "heuristic ''P1'' ''E'' detour_stations = 6371 * pi"
  "heuristic ''P2'' ''E'' detour_stations = 0"
  "heuristic ''X'' ''E'' detour_stations = 6371 * pi"
  "heuristic ''E'' ''E'' detour_stations = 0"
  by (simp_all add: heuristic_def detour_stations_def haversine_half_turn haversine_same)

lemma detour_nonneg: "nonneg_weights detour_graph"
  by (simp add: nonneg_weights_def detour_graph_def edges_of_def)

lemma detour_consistent: "heuristic_consistent detour_graph ''E'' detour_stations"
  using pi_less_4
  by (simp add: heuristic_consistent_def detour_graph_def edges_of_def detour_heuristic)

lemma detour_admissible: "heuristic_admissible detour_graph ''E'' detour_stations"
  unfolding heuristic_admissible_def
proof (intro allI impI)
  fix n c assume "walk detour_graph n c ''E''"
  moreover have "consistent (\<lambda>n. heuristic n ''E'' detour_stations) detour_graph"
    using detour_consistent by (simp add: heuristic_consistent_def consistent_def)
  ultimately show "heuristic n ''E'' detour_stations \<le> c"
    using consistent_walk[of "\<lambda>n. heuristic n ''E'' detour_stations" detour_graph n c "''E''"]
    by (simp add: detour_heuristic)
qed

lemma detour_dijkstra:
  "dijkstra detour_graph ''S'' ''E'' =
     (Num 30002,
      [(''S'', Some ''Red''), (''P1'', Some ''Red''), (''X'', Some ''Red''), (''E'', None)], 5)"
  by (simp add: run_simps detour_graph_def)

lemma detour_a_star:
  "a_star detour_graph ''S'' ''E'' detour_stations =
     (Num 30002,
      [(''S'', Some ''Red''), (''P1'', Some ''Red''), (''X'', Some ''Red''), (''E'', None)], 6)"
  using pi_ge_two pi_less_4
  by (simp add: run_simps detour_graph_def detour_heuristic)

section \<open>The stations dequeued\<close>

subsection \<open>The list of dequeued stations and the result\<close>

lemma a_star_dequeued_Nil: "a_star_dequeued_loop h g e [] V G = []"
  by (simp add: a_star_dequeued_loop.simps)

lemma a_star_dequeued_end:
  "queue \<noteq> [] \<Longrightarrow> heappop queue = ((f, d, e, p), q1) \<Longrightarrow>
   a_star_dequeued_loop h g e queue V G = [e]"
  by (simp add: a_star_dequeued_loop.simps)

lemma a_star_dequeued_skip:
  "queue \<noteq> [] \<Longrightarrow> heappop queue = ((f, d, n, p), q1) \<Longrightarrow> n \<noteq> e \<Longrightarrow> n \<in> V \<Longrightarrow>
   a_star_dequeued_loop h g e queue V G = n # a_star_dequeued_loop h g e q1 V G"
  by (simp add: a_star_dequeued_loop.simps)

lemma a_star_dequeued_leaf:
  "queue \<noteq> [] \<Longrightarrow> heappop queue = ((f, d, n, p), q1) \<Longrightarrow> n \<noteq> e \<Longrightarrow> n \<notin> V \<Longrightarrow>
   fmlookup g n = None \<Longrightarrow>
   a_star_dequeued_loop h g e queue V G = n # a_star_dequeued_loop h g e q1 (insert n V) G"
  by (simp add: a_star_dequeued_loop.simps)

lemma a_star_dequeued_expand:
  "queue \<noteq> [] \<Longrightarrow> heappop queue = ((f, d, n, p), q1) \<Longrightarrow> n \<noteq> e \<Longrightarrow> n \<notin> V \<Longrightarrow>
   fmlookup g n = Some es \<Longrightarrow> fold (a_star_relax h d n p) es (G, q1) = (G1, q2) \<Longrightarrow>
   a_star_dequeued_loop h g e queue V G = n # a_star_dequeued_loop h g e q2 (insert n V) G1"
  by (simp add: a_star_dequeued_loop.simps)

lemma dijkstra_dequeued_a_star_dequeued:
  "dijkstra_dequeued_loop g e q V G = a_star_dequeued_loop (\<lambda>_. 0) g e (map lift_entry q) V G"
proof (induction g e q V G rule: dijkstra_dequeued_loop.induct)
  case (1 g e queue V G)
  show ?case
  proof (cases "queue = []")
    case True
    then show ?thesis by (simp add: dijkstra_dequeued_loop.simps a_star_dequeued_Nil)
  next
    case ne: False
    then have ne': "map lift_entry queue \<noteq> []" by simp
    obtain x q1 where "heappop queue = (x, q1)"
      by (cases "heappop queue")
    moreover obtain d n p where x: "x = (d, n, p)"
      by (cases x rule: prod_cases3)
    ultimately have pop: "heappop queue = ((d, n, p), q1)"
      by simp
    have pop': "heappop (map lift_entry queue) = ((d, d, n, p), map lift_entry q1)"
      using heappop_lift[OF ne pop] by (simp add: lift_entry_def)
    show ?thesis
    proof (cases "n = e")
      case True
      then show ?thesis
        using a_star_dequeued_end[OF ne', of d d e p] pop pop' ne
        by (simp add: dijkstra_dequeued_loop.simps)
    next
      case nend: False
      show ?thesis
      proof (cases "n \<in> V")
        case True
        have "dijkstra_dequeued_loop g e queue V G = n # dijkstra_dequeued_loop g e q1 V G"
          using ne pop nend True by (simp add: dijkstra_dequeued_loop.simps)
        also have "\<dots> = n # a_star_dequeued_loop (\<lambda>_. 0) g e (map lift_entry q1) V G"
          using 1(1)[OF ne pop[symmetric] refl refl nend True] by simp
        also have "\<dots> = a_star_dequeued_loop (\<lambda>_. 0) g e (map lift_entry queue) V G"
          using a_star_dequeued_skip[OF ne' pop' nend True] by simp
        finally show ?thesis .
      next
        case nv: False
        show ?thesis
        proof (cases "fmlookup g n")
          case None
          have "dijkstra_dequeued_loop g e queue V G
              = n # dijkstra_dequeued_loop g e q1 (insert n V) G"
            using ne pop nend nv None by (simp add: dijkstra_dequeued_loop.simps)
          also have "\<dots> = n # a_star_dequeued_loop (\<lambda>_. 0) g e (map lift_entry q1) (insert n V) G"
            using 1(2)[OF ne pop[symmetric] refl refl nend nv None] by simp
          also have "\<dots> = a_star_dequeued_loop (\<lambda>_. 0) g e (map lift_entry queue) V G"
            using a_star_dequeued_leaf[OF ne' pop' nend nv None] by simp
          finally show ?thesis .
        next
          case (Some es)
          obtain G1 q2 where fo: "fold (dijkstra_relax d n p) es (G, q1) = (G1, q2)"
            by (cases "fold (dijkstra_relax d n p) es (G, q1)")
          have "dijkstra_dequeued_loop g e queue V G
              = n # dijkstra_dequeued_loop g e q2 (insert n V) G1"
            using ne pop nend nv Some fo by (simp add: dijkstra_dequeued_loop.simps)
          also have "\<dots> = n # a_star_dequeued_loop (\<lambda>_. 0) g e (map lift_entry q2) (insert n V) G1"
            using 1(3)[OF ne pop[symmetric] refl refl nend nv Some fo[symmetric]] by simp
          also have "\<dots> = a_star_dequeued_loop (\<lambda>_. 0) g e (map lift_entry queue) V G"
            using a_star_dequeued_expand[OF ne' pop' nend nv Some fold_relax_lift[OF fo]] by simp
          finally show ?thesis .
        qed
      qed
    qed
  qed
qed

lemma a_star_loop_dequeued:
  "(e \<notin> set (a_star_dequeued_loop h g e queue V G) \<longrightarrow>
      a_star_loop h g e queue V G c
        = (PosInf, [], c + length (a_star_dequeued_loop h g e queue V G))) \<and>
   (e \<in> set (a_star_dequeued_loop h g e queue V G) \<longrightarrow>
      (\<exists>d p. a_star_loop h g e queue V G c
        = (Num d, p @ [(e, None)], c + length (a_star_dequeued_loop h g e queue V G))))"
proof (induction queue V G c rule: a_star_loop_cases_induct[where h = h and g = g and e = e])
  case (empty V G c)
  show ?case by (simp add: a_star_loop_Nil a_star_dequeued_Nil)
next
  case (goal queue V G c f d p q1)
  then show ?case by (simp add: a_star_loop_end a_star_dequeued_end)
next
  case (skip queue V G c f d n p q1)
  then show ?case
    using a_star_loop_skip[OF skip(1-4), of h g G c] a_star_dequeued_skip[OF skip(1-4), of h g G]
    by simp
next
  case (leaf queue V G c f d n p q1)
  then show ?case
    using a_star_loop_leaf[OF leaf(1-5), of h G c] a_star_dequeued_leaf[OF leaf(1-5), of h G]
    by simp
next
  case (expand queue V G c f d n p q1 es G1 q2)
  then show ?case
    using a_star_loop_expand[OF expand(1-6), of c] a_star_dequeued_expand[OF expand(1-6)]
    by simp
qed

lemma dijkstra_dequeued_Nil: "dijkstra_dequeued_loop g e [] V M = []"
  by (simp add: dijkstra_dequeued_loop.simps)

lemmas dijkstra_dequeued_Cons = dijkstra_dequeued_loop.simps[of _ _ "x # q" for x q]

lemmas a_star_dequeued_Cons = a_star_dequeued_loop.simps[of _ _ _ "x # q" for x q]

lemmas dequeued_simps = dijkstra_dequeued_def a_star_dequeued_def init_table_def heappop_def
  heappush_def dijkstra_relax_def a_star_relax_def get_inf_def lt_cost_def Let_def
  dijkstra_dequeued_Nil dijkstra_dequeued_Cons a_star_dequeued_Nil a_star_dequeued_Cons

lemma dijkstra_dequeued_result:
  "(e \<notin> set (dijkstra_dequeued graph s e) \<longrightarrow>
      dijkstra graph s e = (PosInf, [], length (dijkstra_dequeued graph s e))) \<and>
   (e \<in> set (dijkstra_dequeued graph s e) \<longrightarrow>
      (\<exists>d p. dijkstra graph s e = (Num d, p @ [(e, None)], length (dijkstra_dequeued graph s e))))"
  unfolding dijkstra_def dijkstra_dequeued_def dijkstra_loop_a_star_loop
    dijkstra_dequeued_a_star_dequeued
  using a_star_loop_dequeued[of e "\<lambda>_. 0" graph "map lift_entry [(0, s, [])]" "{}"
      "init_table graph s" 0]
  by simp

lemma a_star_dequeued_result:
  "(e \<notin> set (a_star_dequeued graph s e sd) \<longrightarrow>
      a_star graph s e sd = (PosInf, [], length (a_star_dequeued graph s e sd))) \<and>
   (e \<in> set (a_star_dequeued graph s e sd) \<longrightarrow>
      (\<exists>d p. a_star graph s e sd
         = (Num d, p @ [(e, None)], length (a_star_dequeued graph s e sd))))"
  unfolding a_star_def a_star_dequeued_def
  using a_star_loop_dequeued[of e "\<lambda>n. heuristic n e sd" graph "[(0, 0, s, [])]" "{}"
      "init_table graph s" 0]
  by simp

lemma a_star_dequeued_start_leaf:
  assumes "s \<noteq> e" "fmlookup graph s = None"
  shows "a_star_dequeued_loop h graph e [(f, 0, s, [])] {} G = [s]"
  using a_star_dequeued_leaf[of "[(f, 0, s, [])]" f 0 s "[]" "[]" e "{}" graph h G] assms
  by (simp add: heappop_single a_star_dequeued_Nil)

subsection \<open>Least costs, pushed entries and the order of a list\<close>

text \<open>
  \<open>opt graph s n d\<close>: \<open>d\<close> is the least cost of a walk from \<open>s\<close> to \<open>n\<close>. Every queue entry
  was pushed while a visited station was expanded, with the least cost of that station plus
  the weight of the edge. \<open>before xs t\<close> are the elements of a list in front of the first
  \<open>t\<close>.
\<close>

definition opt :: "('a, 'l) graph \<Rightarrow> 'a \<Rightarrow> 'a \<Rightarrow> real \<Rightarrow> bool" where
  "opt graph s n d \<longleftrightarrow> walk graph s d n \<and> (\<forall>c. walk graph s c n \<longrightarrow> d \<le> c)"

definition pushed_inv ::
  "('a, 'l) graph \<Rightarrow> 'a \<Rightarrow> (real \<times> real \<times> 'a \<times> ('a, 'l) path) list \<Rightarrow> 'a set \<Rightarrow> bool" where
  "pushed_inv graph s Q V \<longleftrightarrow>
     (\<forall>f d n p. (f, d, n, p) \<in> set Q \<longrightarrow>
        (\<exists>x \<in> V. \<exists>ed \<in> set (edges_of graph x). \<exists>dx.
           opt graph s x dx \<and> to ed = n \<and> d = dx + distance ed))"

definition before :: "'a list \<Rightarrow> 'a \<Rightarrow> 'a set" where
  "before xs t = set (takeWhile (\<lambda>z. z \<noteq> t) xs)"

lemma opt_unique: "opt graph s n d \<Longrightarrow> opt graph s n d' \<Longrightarrow> d = d'"
  unfolding opt_def by (meson antisym)

lemma before_Nil: "before [] t = {}"
  by (simp add: before_def)

lemma before_Cons: "before (x # xs) t = (if x = t then {} else insert x (before xs t))"
  by (cases "x = t") (simp_all add: before_def)

lemma before_subset: "before xs t \<subseteq> set xs"
  by (induction xs) (auto simp: before_Nil before_Cons)

lemma before_irrefl: "t \<notin> before xs t"
  by (induction xs) (auto simp: before_Nil before_Cons)

lemma before_shorter:
  "u \<in> before xs t \<Longrightarrow>
   length (takeWhile (\<lambda>z. z \<noteq> u) xs) < length (takeWhile (\<lambda>z. z \<noteq> t) xs)"
  by (induction xs) (auto simp: before_Nil before_Cons split: if_splits)

lemma before_mono: "u \<in> before xs t \<Longrightarrow> before xs u \<subseteq> before xs t"
  by (induction xs) (auto simp: before_Nil before_Cons split: if_splits)

lemma before_asym: "u \<in> before xs t \<Longrightarrow> t \<notin> before xs u"
  using before_irrefl[of t] by (induction xs) (auto simp: before_Nil before_Cons split: if_splits)

lemma before_total:
  "x \<in> set xs \<Longrightarrow> x \<noteq> y \<Longrightarrow> x \<notin> before xs y \<Longrightarrow> y \<in> before xs x"
  by (induction xs) (auto simp: before_Nil before_Cons split: if_splits)

lemma entry_le_D:
  assumes "(f, g, n, p) \<le> (f', g', n', p')"
  shows "f \<le> (f' :: real)"
    and "f = f' \<Longrightarrow> g \<le> (g' :: real)"
    and "f = f' \<Longrightarrow> g = g' \<Longrightarrow> n \<le> (n' :: 'a::linorder)"
  using assms by (auto simp: less_eq_prod_def)

lemma haversine_nonneg: "0 \<le> haversine lat1 lon1 lat2 lon2"
proof -
  have b: "0 \<le> haversine_a lat1 lon1 lat2 lon2 \<and> haversine_a lat1 lon1 lat2 lon2 \<le> 1"
    by (rule haversine_a_bounds)
  then have "sqrt (haversine_a lat1 lon1 lat2 lon2) \<in> {0..1}"
    by simp
  then have "0 \<le> arcsin (sqrt (haversine_a lat1 lon1 lat2 lon2))"
    by (rule arcsin_nonneg)
  then show ?thesis
    by (simp add: haversine_def Let_def)
qed

lemma heuristic_nonneg: "0 \<le> heuristic n e sd"
  by (simp add: heuristic_def Let_def haversine_nonneg split: option.splits)

lemma heuristic_end: "heuristic e e sd = 0"
  by (simp add: heuristic_def Let_def haversine_def haversine_a_same split: option.splits)

lemma popped_opt:
  assumes "consistent h graph" "search_inv h graph s e Q V G" "Q \<noteq> []"
    "heappop Q = ((f, d, n, p), q1)" "n \<notin> V"
  shows "opt graph s n d"
  using popped_optimal[OF assms] by (simp add: opt_def)

lemma closed_opt:
  assumes "search_inv h graph s e Q V G" "v \<in> V"
  shows "\<exists>dv. get_inf G v = Num dv \<and> opt graph s v dv \<and>
    (\<forall>ed \<in> set (edges_of graph v). \<not> lt_cost (dv + distance ed) (get_inf G (to ed)))"
proof -
  obtain dv where dv: "get_inf G v = Num dv" "\<forall>c. walk graph s c v \<longrightarrow> dv \<le> c"
    "\<forall>ed \<in> set (edges_of graph v). \<not> lt_cost (dv + distance ed) (get_inf G (to ed))"
    using assms unfolding search_inv_def by blast
  moreover have "walk graph s dv v"
    using assms(1) dv(1) unfolding search_inv_def by blast
  ultimately show ?thesis
    unfolding opt_def by blast
qed

lemma open_entry:
  assumes inv: "search_inv h graph s e Q V G"
    and x: "x \<in> V" "opt graph s x dx" "ed \<in> set (edges_of graph x)" and n: "to ed \<notin> V"
  shows "\<exists>g p. g \<le> dx + distance ed \<and> (g + h (to ed), g, to ed, p) \<in> set Q"
proof -
  obtain dv where dv: "opt graph s x dv"
    "\<forall>ed \<in> set (edges_of graph x). \<not> lt_cost (dv + distance ed) (get_inf G (to ed))"
    using closed_opt[OF inv x(1)] by blast
  have "dv = dx"
    using opt_unique[OF dv(1) x(2)] .
  then obtain g where g: "get_inf G (to ed) = Num g" "g \<le> dx + distance ed"
    using dv(2) x(3) not_lt_cost by blast
  then obtain p where "(g + h (to ed), g, to ed, p) \<in> set Q"
    using inv n unfolding search_inv_def by blast
  then show ?thesis
    using g(2) by blast
qed

lemma popped_entry_key:
  assumes "search_inv h graph s e Q V G" "Q \<noteq> []" "heappop Q = ((f, d, n, p), q1)"
  shows "f = d + h n"
  using heappop_member(1)[OF assms(2,3)] assms(1) unfolding search_inv_def by blast

lemma no_overtaking:
  assumes inv: "search_inv (\<lambda>_. 0) graph s e Q V G"
    and ne: "Q \<noteq> []" and pop: "heappop Q = ((f, k, y, p), q1)"
    and x: "x \<in> V" "opt graph s x dx" "ed \<in> set (edges_of graph x)" and n: "to ed \<notin> V"
  shows "k \<le> dx + distance ed \<and> (k = dx + distance ed \<longrightarrow> y \<le> to ed)"
proof -
  obtain g p' where g: "g \<le> dx + distance ed" "(g + 0, g, to ed, p') \<in> set Q"
    using open_entry[OF inv x n] by blast
  have f: "f = k"
    using popped_entry_key[OF inv ne pop] by simp
  have le: "(k, k, y, p) \<le> (g, g, to ed, p')"
    using heappop_member(2)[OF ne pop] g(2) f by auto
  show ?thesis
    using entry_le_D[OF le] g(1) by auto
qed

lemma cheaper_closed:
  assumes cons: "consistent (\<lambda>_. 0) graph"
    and inv: "search_inv (\<lambda>_. 0) graph s e Q V G"
    and ne: "Q \<noteq> []" and pop: "heappop Q = ((f, k, y, p), q1)"
    and w: "walk graph s c t" "c < k"
  shows "t \<in> V"
proof (rule ccontr)
  assume "t \<notin> V"
  then obtain x' where x': "x' \<in> set Q" "fst x' \<le> c + 0"
    using frontier[OF cons inv w(1)] by blast
  have "f = k"
    using popped_entry_key[OF inv ne pop] by simp
  moreover have "f \<le> fst x'"
    using heappop_member(2)[OF ne pop] x'(1) fst_le_of_le[of "(f, k, y, p)" x'] by simp
  ultimately show False
    using x'(2) w(2) by simp
qed

lemma pushed_after_skip:
  assumes "pushed_inv graph s Q V" "Q \<noteq> []" "heappop Q = (x, q1)"
  shows "pushed_inv graph s q1 V"
  using assms(1) heappop_member(3)[OF assms(2,3)] unfolding pushed_inv_def by blast

lemma pushed_after_pop:
  assumes pu: "pushed_inv graph s Q V" and ne: "Q \<noteq> []"
    and pop: "heappop Q = ((f, d, n, p), q1)" and op: "opt graph s n d"
    and fo: "fold (a_star_relax h d n p) (edges_of graph n) (G, q1) = (G1, q2)"
  shows "pushed_inv graph s q2 (insert n V)"
  unfolding pushed_inv_def
proof (intro allI impI)
  fix f' d' m p' assume mem: "(f', d', m, p') \<in> set q2"
  have "(f', d', m, p') \<in> set q1 \<or> (\<exists>ed \<in> set (edges_of graph n).
      (f', d', m, p') = (d + distance ed + h (to ed), d + distance ed, to ed,
         p @ [(n, Some (line ed))]))"
    using fold_relax_new_entry[OF fo mem] .
  then show "\<exists>x \<in> insert n V. \<exists>ed \<in> set (edges_of graph x). \<exists>dx.
      opt graph s x dx \<and> to ed = m \<and> d' = dx + distance ed"
  proof
    assume "(f', d', m, p') \<in> set q1"
    then have "(f', d', m, p') \<in> set Q"
      using heappop_member(3)[OF ne pop] by blast
    then show ?thesis
      using pu unfolding pushed_inv_def by blast
  next
    assume "\<exists>ed \<in> set (edges_of graph n).
      (f', d', m, p') = (d + distance ed + h (to ed), d + distance ed, to ed,
         p @ [(n, Some (line ed))])"
    then show ?thesis
      using op by auto
  qed
qed

subsection \<open>What dijkstra dequeues\<close>

text \<open>
  Every station dijkstra dequeues is dequeued for the first time in a state that satisfies
  the invariants, with exactly the stations dequeued earlier visited; and an edge that
  leaves the dequeued stations costs at least the least cost of the end station, which was
  then dequeued.
\<close>

lemma first_pop_state:
  fixes c :: nat
  assumes cons: "consistent h graph"
  shows "search_inv h graph s e Q V G \<and> pushed_inv graph s Q V \<longrightarrow>
    (\<forall>y \<in> set (a_star_dequeued_loop h graph e Q V G). y \<notin> V \<longrightarrow>
       (\<exists>Q' V' G' f d p q1.
          search_inv h graph s e Q' V' G' \<and> pushed_inv graph s Q' V' \<and> Q' \<noteq> [] \<and>
          heappop Q' = ((f, d, y, p), q1) \<and>
          V' = V \<union> before (a_star_dequeued_loop h graph e Q V G) y))"
proof (induction Q V G c
    rule: a_star_loop_cases_induct[where h = h and g = graph and e = e])
  case (empty V G c)
  show ?case by (simp add: a_star_dequeued_Nil)
next
  case (goal queue V G c f d p q1)
  show ?case
  proof (intro impI ballI)
    fix y
    assume inv: "search_inv h graph s e queue V G \<and> pushed_inv graph s queue V"
      and y: "y \<in> set (a_star_dequeued_loop h graph e queue V G)"
    have tr: "a_star_dequeued_loop h graph e queue V G = [e]"
      using a_star_dequeued_end[OF goal(1) goal(2)] .
    then have "y = e" using y by simp
    then show "\<exists>Q' V' G' f d p q1.
          search_inv h graph s e Q' V' G' \<and> pushed_inv graph s Q' V' \<and> Q' \<noteq> [] \<and>
          heappop Q' = ((f, d, y, p), q1) \<and>
          V' = V \<union> before (a_star_dequeued_loop h graph e queue V G) y"
      using inv goal(1) goal(2) tr by (auto simp: before_Cons)
  qed
next
  case (skip queue V G c f d n p q1)
  show ?case
  proof (intro impI ballI)
    fix y
    assume inv: "search_inv h graph s e queue V G \<and> pushed_inv graph s queue V"
      and y: "y \<in> set (a_star_dequeued_loop h graph e queue V G)" and yv: "y \<notin> V"
    have tr: "a_star_dequeued_loop h graph e queue V G
        = n # a_star_dequeued_loop h graph e q1 V G"
      using a_star_dequeued_skip[OF skip(1-4)] .
    have inv': "search_inv h graph s e q1 V G \<and> pushed_inv graph s q1 V"
      using inv inv_after_skip[OF _ skip(1) skip(2) skip(4)]
        pushed_after_skip[OF _ skip(1) skip(2)] by blast
    have "y \<noteq> n" using yv skip(4) by auto
    then have "y \<in> set (a_star_dequeued_loop h graph e q1 V G)"
      using y tr by simp
    then obtain Q' V' G' f' d' p' q1' where st:
      "search_inv h graph s e Q' V' G'" "pushed_inv graph s Q' V'" "Q' \<noteq> []"
      "heappop Q' = ((f', d', y, p'), q1')"
      "V' = V \<union> before (a_star_dequeued_loop h graph e q1 V G) y"
      using skip(5) inv' yv by blast
    have "V' = V \<union> before (a_star_dequeued_loop h graph e queue V G) y"
      using st(5) tr \<open>y \<noteq> n\<close> skip(4) by (auto simp: before_Cons)
    then show "\<exists>Q' V' G' f d p q1.
          search_inv h graph s e Q' V' G' \<and> pushed_inv graph s Q' V' \<and> Q' \<noteq> [] \<and>
          heappop Q' = ((f, d, y, p), q1) \<and>
          V' = V \<union> before (a_star_dequeued_loop h graph e queue V G) y"
      using st(1-4) by blast
  qed
next
  case (leaf queue V G c f d n p q1)
  show ?case
  proof (intro impI ballI)
    fix y
    assume inv: "search_inv h graph s e queue V G \<and> pushed_inv graph s queue V"
      and y: "y \<in> set (a_star_dequeued_loop h graph e queue V G)" and yv: "y \<notin> V"
    have tr: "a_star_dequeued_loop h graph e queue V G
        = n # a_star_dequeued_loop h graph e q1 (insert n V) G"
      using a_star_dequeued_leaf[OF leaf(1-5)] .
    have fo: "fold (a_star_relax h d n p) (edges_of graph n) (G, q1) = (G, q1)"
      using leaf(5) by (simp add: edges_of_None)
    have op: "opt graph s n d"
      using popped_opt[OF cons _ leaf(1) leaf(2) leaf(4)] inv by blast
    have inv': "search_inv h graph s e q1 (insert n V) G \<and> pushed_inv graph s q1 (insert n V)"
      using inv inv_after_pop[OF cons _ leaf(1) leaf(2) leaf(3) leaf(4) fo]
        pushed_after_pop[OF _ leaf(1) leaf(2) op fo] by blast
    show "\<exists>Q' V' G' f d p q1.
          search_inv h graph s e Q' V' G' \<and> pushed_inv graph s Q' V' \<and> Q' \<noteq> [] \<and>
          heappop Q' = ((f, d, y, p), q1) \<and>
          V' = V \<union> before (a_star_dequeued_loop h graph e queue V G) y"
    proof (cases "y = n")
      case True
      then show ?thesis
        using inv leaf(1) leaf(2) tr by (auto simp: before_Cons)
    next
      case False
      then have "y \<in> set (a_star_dequeued_loop h graph e q1 (insert n V) G)" "y \<notin> insert n V"
        using y tr yv by simp_all
      then obtain Q' V' G' f' d' p' q1' where st:
        "search_inv h graph s e Q' V' G'" "pushed_inv graph s Q' V'" "Q' \<noteq> []"
        "heappop Q' = ((f', d', y, p'), q1')"
        "V' = insert n V \<union> before (a_star_dequeued_loop h graph e q1 (insert n V) G) y"
        using leaf(6) inv' by blast
      have "V' = V \<union> before (a_star_dequeued_loop h graph e queue V G) y"
        using st(5) tr False by (auto simp: before_Cons)
      then show ?thesis
        using st(1-4) by blast
    qed
  qed
next
  case (expand queue V G c f d n p q1 es G1 q2)
  show ?case
  proof (intro impI ballI)
    fix y
    assume inv: "search_inv h graph s e queue V G \<and> pushed_inv graph s queue V"
      and y: "y \<in> set (a_star_dequeued_loop h graph e queue V G)" and yv: "y \<notin> V"
    have tr: "a_star_dequeued_loop h graph e queue V G
        = n # a_star_dequeued_loop h graph e q2 (insert n V) G1"
      using a_star_dequeued_expand[OF expand(1-6)] .
    have fo: "fold (a_star_relax h d n p) (edges_of graph n) (G, q1) = (G1, q2)"
      using expand(5) expand(6) by (simp add: edges_of_Some)
    have op: "opt graph s n d"
      using popped_opt[OF cons _ expand(1) expand(2) expand(4)] inv by blast
    have inv': "search_inv h graph s e q2 (insert n V) G1 \<and> pushed_inv graph s q2 (insert n V)"
      using inv inv_after_pop[OF cons _ expand(1) expand(2) expand(3) expand(4) fo]
        pushed_after_pop[OF _ expand(1) expand(2) op fo] by blast
    show "\<exists>Q' V' G' f d p q1.
          search_inv h graph s e Q' V' G' \<and> pushed_inv graph s Q' V' \<and> Q' \<noteq> [] \<and>
          heappop Q' = ((f, d, y, p), q1) \<and>
          V' = V \<union> before (a_star_dequeued_loop h graph e queue V G) y"
    proof (cases "y = n")
      case True
      then show ?thesis
        using inv expand(1) expand(2) tr by (auto simp: before_Cons)
    next
      case False
      then have "y \<in> set (a_star_dequeued_loop h graph e q2 (insert n V) G1)" "y \<notin> insert n V"
        using y tr yv by simp_all
      then obtain Q' V' G' f' d' p' q1' where st:
        "search_inv h graph s e Q' V' G'" "pushed_inv graph s Q' V'" "Q' \<noteq> []"
        "heappop Q' = ((f', d', y, p'), q1')"
        "V' = insert n V \<union> before (a_star_dequeued_loop h graph e q2 (insert n V) G1) y"
        using expand(7) inv' by blast
      have "V' = V \<union> before (a_star_dequeued_loop h graph e queue V G) y"
        using st(5) tr False by (auto simp: before_Cons)
      then show ?thesis
        using st(1-4) by blast
    qed
  qed
qed

lemma dijkstra_closure:
  fixes c :: nat
  assumes cons: "consistent (\<lambda>_. 0) graph"
  shows "search_inv (\<lambda>_. 0) graph s e Q V G \<longrightarrow>
    (\<forall>x ed dx. x \<in> V \<union> set (a_star_dequeued_loop (\<lambda>_. 0) graph e Q V G) \<longrightarrow> x \<noteq> e \<longrightarrow>
       to ed \<notin> V \<union> set (a_star_dequeued_loop (\<lambda>_. 0) graph e Q V G) \<longrightarrow>
       ed \<in> set (edges_of graph x) \<longrightarrow> opt graph s x dx \<longrightarrow>
       e \<in> set (a_star_dequeued_loop (\<lambda>_. 0) graph e Q V G) \<and>
       (\<exists>C. opt graph s e C \<and> C \<le> dx + distance ed \<and>
            (C = dx + distance ed \<longrightarrow> e < to ed)))"
proof (induction Q V G c
    rule: a_star_loop_cases_induct[where h = "\<lambda>_. 0" and g = graph and e = e])
  case (empty V G c)
  show ?case
  proof (intro impI allI)
    fix x ed dx
    assume inv: "search_inv (\<lambda>_. 0) graph s e [] V G"
      and x: "x \<in> V \<union> set (a_star_dequeued_loop (\<lambda>_. 0) graph e [] V G)"
      and n: "to ed \<notin> V \<union> set (a_star_dequeued_loop (\<lambda>_. 0) graph e [] V G)"
      and ed: "ed \<in> set (edges_of graph x)" and op: "opt graph s x dx"
    have "x \<in> V" "to ed \<notin> V"
      using x n by (simp_all add: a_star_dequeued_Nil)
    then have False
      using open_entry[OF inv _ op ed] by simp
    then show "e \<in> set (a_star_dequeued_loop (\<lambda>_. 0) graph e [] V G) \<and>
       (\<exists>C. opt graph s e C \<and> C \<le> dx + distance ed \<and>
            (C = dx + distance ed \<longrightarrow> e < to ed))"
      by simp
  qed
next
  case (goal queue V G c f d p q1)
  show ?case
  proof (intro impI allI)
    fix x ed dx
    assume inv: "search_inv (\<lambda>_. 0) graph s e queue V G"
      and x: "x \<in> V \<union> set (a_star_dequeued_loop (\<lambda>_. 0) graph e queue V G)" "x \<noteq> e"
      and n: "to ed \<notin> V \<union> set (a_star_dequeued_loop (\<lambda>_. 0) graph e queue V G)"
      and ed: "ed \<in> set (edges_of graph x)" and op: "opt graph s x dx"
    have tr: "a_star_dequeued_loop (\<lambda>_. 0) graph e queue V G = [e]"
      using a_star_dequeued_end[OF goal(1) goal(2)] .
    have xv: "x \<in> V" and nv: "to ed \<notin> V" and ne: "to ed \<noteq> e"
      using x n tr by auto
    have ev: "e \<notin> V"
      using inv unfolding search_inv_def by simp
    have ope: "opt graph s e d"
      using popped_opt[OF cons inv goal(1) goal(2) ev] .
    have "d \<le> dx + distance ed \<and> (d = dx + distance ed \<longrightarrow> e \<le> to ed)"
      using no_overtaking[OF inv goal(1) goal(2) xv op ed nv] .
    then have "d \<le> dx + distance ed \<and> (d = dx + distance ed \<longrightarrow> e < to ed)"
      using ne by auto
    then show "e \<in> set (a_star_dequeued_loop (\<lambda>_. 0) graph e queue V G) \<and>
       (\<exists>C. opt graph s e C \<and> C \<le> dx + distance ed \<and>
            (C = dx + distance ed \<longrightarrow> e < to ed))"
      using tr ope by auto
  qed
next
  case (skip queue V G c f d n p q1)
  show ?case
  proof (intro impI allI)
    fix x ed dx
    assume inv: "search_inv (\<lambda>_. 0) graph s e queue V G"
      and x: "x \<in> V \<union> set (a_star_dequeued_loop (\<lambda>_. 0) graph e queue V G)" "x \<noteq> e"
      and n: "to ed \<notin> V \<union> set (a_star_dequeued_loop (\<lambda>_. 0) graph e queue V G)"
      and ed: "ed \<in> set (edges_of graph x)" and op: "opt graph s x dx"
    have tr: "a_star_dequeued_loop (\<lambda>_. 0) graph e queue V G
        = n # a_star_dequeued_loop (\<lambda>_. 0) graph e q1 V G"
      using a_star_dequeued_skip[OF skip(1-4)] .
    have inv': "search_inv (\<lambda>_. 0) graph s e q1 V G"
      using inv_after_skip[OF inv skip(1) skip(2) skip(4)] .
    have "x \<in> V \<union> set (a_star_dequeued_loop (\<lambda>_. 0) graph e q1 V G)"
      "to ed \<notin> V \<union> set (a_star_dequeued_loop (\<lambda>_. 0) graph e q1 V G)"
      using x n tr skip(4) by auto
    then have "e \<in> set (a_star_dequeued_loop (\<lambda>_. 0) graph e q1 V G) \<and>
       (\<exists>C. opt graph s e C \<and> C \<le> dx + distance ed \<and>
            (C = dx + distance ed \<longrightarrow> e < to ed))"
      using skip(5) inv' x(2) ed op by blast
    then show "e \<in> set (a_star_dequeued_loop (\<lambda>_. 0) graph e queue V G) \<and>
       (\<exists>C. opt graph s e C \<and> C \<le> dx + distance ed \<and>
            (C = dx + distance ed \<longrightarrow> e < to ed))"
      using tr by simp
  qed
next
  case (leaf queue V G c f d n p q1)
  show ?case
  proof (intro impI allI)
    fix x ed dx
    assume inv: "search_inv (\<lambda>_. 0) graph s e queue V G"
      and x: "x \<in> V \<union> set (a_star_dequeued_loop (\<lambda>_. 0) graph e queue V G)" "x \<noteq> e"
      and n: "to ed \<notin> V \<union> set (a_star_dequeued_loop (\<lambda>_. 0) graph e queue V G)"
      and ed: "ed \<in> set (edges_of graph x)" and op: "opt graph s x dx"
    have tr: "a_star_dequeued_loop (\<lambda>_. 0) graph e queue V G
        = n # a_star_dequeued_loop (\<lambda>_. 0) graph e q1 (insert n V) G"
      using a_star_dequeued_leaf[OF leaf(1-5)] .
    have fo: "fold (a_star_relax (\<lambda>_. 0) d n p) (edges_of graph n) (G, q1) = (G, q1)"
      using leaf(5) by (simp add: edges_of_None)
    have inv': "search_inv (\<lambda>_. 0) graph s e q1 (insert n V) G"
      using inv_after_pop[OF cons inv leaf(1) leaf(2) leaf(3) leaf(4) fo] .
    have "x \<in> insert n V \<union> set (a_star_dequeued_loop (\<lambda>_. 0) graph e q1 (insert n V) G)"
      "to ed \<notin> insert n V \<union> set (a_star_dequeued_loop (\<lambda>_. 0) graph e q1 (insert n V) G)"
      using x n tr by auto
    then have "e \<in> set (a_star_dequeued_loop (\<lambda>_. 0) graph e q1 (insert n V) G) \<and>
       (\<exists>C. opt graph s e C \<and> C \<le> dx + distance ed \<and>
            (C = dx + distance ed \<longrightarrow> e < to ed))"
      using leaf(6) inv' x(2) ed op by blast
    then show "e \<in> set (a_star_dequeued_loop (\<lambda>_. 0) graph e queue V G) \<and>
       (\<exists>C. opt graph s e C \<and> C \<le> dx + distance ed \<and>
            (C = dx + distance ed \<longrightarrow> e < to ed))"
      using tr by simp
  qed
next
  case (expand queue V G c f d n p q1 es G1 q2)
  show ?case
  proof (intro impI allI)
    fix x ed dx
    assume inv: "search_inv (\<lambda>_. 0) graph s e queue V G"
      and x: "x \<in> V \<union> set (a_star_dequeued_loop (\<lambda>_. 0) graph e queue V G)" "x \<noteq> e"
      and n: "to ed \<notin> V \<union> set (a_star_dequeued_loop (\<lambda>_. 0) graph e queue V G)"
      and ed: "ed \<in> set (edges_of graph x)" and op: "opt graph s x dx"
    have tr: "a_star_dequeued_loop (\<lambda>_. 0) graph e queue V G
        = n # a_star_dequeued_loop (\<lambda>_. 0) graph e q2 (insert n V) G1"
      using a_star_dequeued_expand[OF expand(1-6)] .
    have fo: "fold (a_star_relax (\<lambda>_. 0) d n p) (edges_of graph n) (G, q1) = (G1, q2)"
      using expand(5) expand(6) by (simp add: edges_of_Some)
    have inv': "search_inv (\<lambda>_. 0) graph s e q2 (insert n V) G1"
      using inv_after_pop[OF cons inv expand(1) expand(2) expand(3) expand(4) fo] .
    have "x \<in> insert n V \<union> set (a_star_dequeued_loop (\<lambda>_. 0) graph e q2 (insert n V) G1)"
      "to ed \<notin> insert n V \<union> set (a_star_dequeued_loop (\<lambda>_. 0) graph e q2 (insert n V) G1)"
      using x n tr by auto
    then have "e \<in> set (a_star_dequeued_loop (\<lambda>_. 0) graph e q2 (insert n V) G1) \<and>
       (\<exists>C. opt graph s e C \<and> C \<le> dx + distance ed \<and>
            (C = dx + distance ed \<longrightarrow> e < to ed))"
      using expand(7) inv' x(2) ed op by blast
    then show "e \<in> set (a_star_dequeued_loop (\<lambda>_. 0) graph e queue V G) \<and>
       (\<exists>C. opt graph s e C \<and> C \<le> dx + distance ed \<and>
            (C = dx + distance ed \<longrightarrow> e < to ed))"
      using tr by simp
  qed
qed

lemma reachable_end_dequeued:
  assumes cons: "consistent h graph" and inv: "search_inv h graph s e Q V G"
    and w: "walk graph s c e"
  shows "e \<in> set (a_star_dequeued_loop h graph e Q V G)"
proof (rule ccontr)
  assume "e \<notin> set (a_star_dequeued_loop h graph e Q V G)"
  then have "fst (a_star_loop h graph e Q V G 0) = PosInf"
    using a_star_loop_dequeued[of e h graph Q V G 0] by simp
  then have "\<forall>d. \<not> walk graph s d e"
    using a_star_loop_correct[OF cons, of s e Q V G 0] inv by (simp add: is_min_cost_def)
  then show False
    using w by blast
qed

subsection \<open>a\_star dequeues only stations that dijkstra dequeues\<close>

text \<open>
  \<open>dijkstra_facts\<close> collects what the last subsection gives about the list \<open>TD\<close> of the
  stations dijkstra dequeues after having visited \<open>VD\<close>. \<open>prefix_inv\<close> is the part of the
  invariant of a\_star that handles ties: among the stations at the least cost \<open>C\<close> of the
  end station with estimate 0, a\_star has visited a prefix of dijkstra's order.
\<close>

definition dijkstra_facts ::
  "('a::linorder, 'l::linorder) graph \<Rightarrow> 'a \<Rightarrow> 'a \<Rightarrow> 'a set \<Rightarrow> 'a list \<Rightarrow> bool" where
  "dijkstra_facts graph s e VD TD \<longleftrightarrow>
     (\<forall>x ed dx. x \<in> VD \<union> set TD \<longrightarrow> x \<noteq> e \<longrightarrow> to ed \<notin> VD \<union> set TD \<longrightarrow>
        ed \<in> set (edges_of graph x) \<longrightarrow> opt graph s x dx \<longrightarrow>
        e \<in> set TD \<and>
        (\<exists>C. opt graph s e C \<and> C \<le> dx + distance ed \<and>
             (C = dx + distance ed \<longrightarrow> e < to ed))) \<and>
     (\<forall>y \<in> set TD. y \<notin> VD \<longrightarrow>
        (\<exists>Q' V' G' f d p q1.
           search_inv (\<lambda>_. 0) graph s e Q' V' G' \<and> pushed_inv graph s Q' V' \<and> Q' \<noteq> [] \<and>
           heappop Q' = ((f, d, y, p), q1) \<and> V' = VD \<union> before TD y))"

definition prefix_inv ::
  "('a \<Rightarrow> real) \<Rightarrow> ('a, 'l) graph \<Rightarrow> 'a \<Rightarrow> real \<Rightarrow> 'a set \<Rightarrow> 'a list \<Rightarrow> 'a set \<Rightarrow> bool" where
  "prefix_inv h graph s C VD TD V \<longleftrightarrow>
     (\<forall>x \<in> V - VD. \<forall>y \<in> before TD x.
        h x = 0 \<and> opt graph s x C \<and> h y = 0 \<and> opt graph s y C \<longrightarrow> y \<in> V)"

lemma first_pop_fact:
  assumes "dijkstra_facts graph s e VD TD" "y \<in> set TD" "y \<notin> VD"
  obtains Q' V' G' f d p q1 where
    "search_inv (\<lambda>_. 0) graph s e Q' V' G'" "pushed_inv graph s Q' V'" "Q' \<noteq> []"
    "heappop Q' = ((f, d, y, p), q1)" "V' = VD \<union> before TD y"
  using assms unfolding dijkstra_facts_def by blast

lemma backward_frontier:
  assumes cons: "consistent h graph" and cons0: "consistent (\<lambda>_. 0) graph"
    and facts: "dijkstra_facts graph s e VD TD"
    and inv: "search_inv h graph s e Q V G" and sub: "VD \<subseteq> V"
  shows "t \<in> set TD \<Longrightarrow> t \<notin> V \<Longrightarrow>
    \<exists>y' dy p' dt. (y' = t \<or> y' \<in> before TD t) \<and> y' \<in> set TD \<and> y' \<notin> V \<and>
       opt graph s y' dy \<and> (dy + h y', dy, y', p') \<in> set Q \<and>
       opt graph s t dt \<and> dy + h y' \<le> dt + h t"
proof (induction "length (takeWhile (\<lambda>z. z \<noteq> t) TD)" arbitrary: t rule: less_induct)
  case less
  have tvd: "t \<notin> VD"
    using less.prems(2) sub by blast
  obtain Q' V' G' f k p q1 where st:
    "search_inv (\<lambda>_. 0) graph s e Q' V' G'" "pushed_inv graph s Q' V'" "Q' \<noteq> []"
    "heappop Q' = ((f, k, t, p), q1)" "V' = VD \<union> before TD t"
    using first_pop_fact[OF facts less.prems(1) tvd] by blast
  have tv': "t \<notin> V'"
    using st(5) tvd before_irrefl[of t TD] by simp
  have opt_t: "opt graph s t k"
    using popped_opt[OF cons0 st(1) st(3) st(4) tv'] .
  obtain u ed du where u: "u \<in> V'" "ed \<in> set (edges_of graph u)" "opt graph s u du"
    "to ed = t" "k = du + distance ed"
    using st(2) heappop_member(1)[OF st(3) st(4)] unfolding pushed_inv_def by blast
  show ?case
  proof (cases "u \<in> V")
    case True
    have "to ed \<notin> V" using u(4) less.prems(2) by simp
    then obtain g p' where g: "g \<le> du + distance ed" "(g + h (to ed), g, to ed, p') \<in> set Q"
      using open_entry[OF inv True u(3) u(2)] by blast
    have "walk graph s g t"
      using inv g(2) u(4) unfolding search_inv_def by blast
    then have "k \<le> g"
      using opt_t unfolding opt_def by blast
    then have "g = k"
      using g(1) u(5) by simp
    then have "(k + h t, k, t, p') \<in> set Q"
      using g(2) u(4) by simp
    then show ?thesis
      using opt_t less.prems by blast
  next
    case False
    then have ub: "u \<in> before TD t"
      using u(1) st(5) sub by blast
    then have uT: "u \<in> set TD"
      using before_subset[of TD t] by blast
    obtain y' dy p' du' where y':
      "y' = u \<or> y' \<in> before TD u" "y' \<in> set TD" "y' \<notin> V" "opt graph s y' dy"
      "(dy + h y', dy, y', p') \<in> set Q" "opt graph s u du'" "dy + h y' \<le> du' + h u"
      using less.hyps[OF before_shorter[OF ub] uT False] by blast
    have "du' = du"
      using opt_unique[OF y'(6) u(3)] .
    moreover have "h u \<le> distance ed + h t"
      using consistentD[OF cons u(2)] u(4) by simp
    ultimately have "dy + h y' \<le> k + h t"
      using y'(7) u(5) by simp
    moreover have "y' = t \<or> y' \<in> before TD t"
      using y'(1) ub before_mono[OF ub] by blast
    ultimately show ?thesis
      using y'(2-5) opt_t by blast
  qed
qed

lemma no_late_pusher:
  assumes cons0: "consistent (\<lambda>_. 0) graph" and cons: "consistent h graph"
    and hpos: "\<forall>n. 0 \<le> h n"
    and facts: "dijkstra_facts graph s e VD TD"
    and sub: "VD \<subseteq> V" "V \<subseteq> VD \<union> set TD"
    and pre: "prefix_inv h graph s C VD TD V"
    and y: "y' \<in> set TD" "y' \<notin> V" "h y' = 0" "opt graph s y' C"
    and n: "h n = 0" "n < y'" "n \<notin> VD \<union> before TD y'"
    and x: "x \<in> V" "ed \<in> set (edges_of graph x)" "to ed = n" "opt graph s x dx"
      "dx + distance ed = C"
  shows False
proof -
  have yvd: "y' \<notin> VD"
    using y(2) sub(1) by blast
  obtain Q' V' G' f k p q1 where st:
    "search_inv (\<lambda>_. 0) graph s e Q' V' G'" "pushed_inv graph s Q' V'" "Q' \<noteq> []"
    "heappop Q' = ((f, k, y', p), q1)" "V' = VD \<union> before TD y'"
    using first_pop_fact[OF facts y(1) yvd] by blast
  have yv': "y' \<notin> V'"
    using st(5) yvd before_irrefl[of y' TD] by simp
  have "opt graph s y' k"
    using popped_opt[OF cons0 st(1) st(3) st(4) yv'] .
  then have k: "k = C"
    using y(4) by (rule opt_unique)
  have nv': "to ed \<notin> V'"
    using n(3) st(5) x(3) by simp
  show False
  proof (cases "x \<in> V'")
    case True
    have "k = dx + distance ed \<longrightarrow> y' \<le> to ed"
      using no_overtaking[OF st(1) st(3) st(4) True x(4) x(2) nv'] by blast
    then show False
      using k x(5) x(3) n(2) by simp
  next
    case False
    have xT: "x \<in> set TD"
      using False st(5) x(1) sub(2) by blast
    have "x \<noteq> y'"
      using x(1) y(2) by blast
    then have yb: "y' \<in> before TD x"
      using before_total[OF xT _ ] False st(5) by blast
    have "walk graph s dx x"
      using x(4) unfolding opt_def by blast
    then have "\<not> dx < k"
      using cheaper_closed[OF cons0 st(1) st(3) st(4)] False by blast
    moreover have "0 \<le> distance ed"
      using consistentD[OF cons0 x(2)] by simp
    ultimately have dx: "dx = C" "distance ed = 0"
      using k x(5) by simp_all
    have "h x \<le> distance ed + h (to ed)"
      using consistentD[OF cons x(2)] .
    then have "h x = 0"
      using dx(2) x(3) n(1) hpos by (simp add: antisym)
    moreover have "x \<notin> VD"
      using False st(5) by blast
    ultimately have "y' \<in> V"
      using pre x(1) x(4) dx(1) yb y(3) y(4) unfolding prefix_inv_def by blast
    then show False
      using y(2) by blast
  qed
qed

lemma popped_level:
  assumes cons: "consistent h graph" and cons0: "consistent (\<lambda>_. 0) graph"
    and hpos: "\<forall>n. 0 \<le> h n"
    and facts: "dijkstra_facts graph s e VD TD"
    and inv: "search_inv h graph s e Q V G" and sub: "VD \<subseteq> V"
    and ne: "Q \<noteq> []" and pop: "heappop Q = ((C, C, n, p), q1)"
    and t: "t \<in> set TD" "t \<notin> V" "opt graph s t C" "h t = 0"
  shows "\<exists>y'. (y' = t \<or> y' \<in> before TD t) \<and> y' \<in> set TD \<and> y' \<notin> V \<and> h y' = 0 \<and>
    opt graph s y' C \<and> n \<le> y'"
proof -
  obtain y' dy p' dt where y':
    "y' = t \<or> y' \<in> before TD t" "y' \<in> set TD" "y' \<notin> V" "opt graph s y' dy"
    "(dy + h y', dy, y', p') \<in> set Q" "opt graph s t dt" "dy + h y' \<le> dt + h t"
    using backward_frontier[OF cons cons0 facts inv sub t(1) t(2)] by blast
  have dt: "dt = C"
    using y'(6) t(3) by (rule opt_unique)
  have le: "(C, C, n, p) \<le> (dy + h y', dy, y', p')"
    using heappop_member(2)[OF ne pop] y'(5) by auto
  have 1: "dy + h y' = C"
    using entry_le_D(1)[OF le] y'(7) dt t(4) by simp
  have 2: "C \<le> dy"
    using entry_le_D(2)[OF le 1[symmetric]] .
  have "0 \<le> h y'"
    using hpos by simp
  then have 3: "dy = C" "h y' = 0"
    using 1 2 by simp_all
  have "n \<le> y'"
    using entry_le_D(3)[OF le 1[symmetric] 3(1)[symmetric]] .
  then show ?thesis
    using y'(1) y'(2) y'(3) y'(4) 3 by blast
qed

lemma popped_in_dijkstra:
  assumes cons: "consistent h graph" and cons0: "consistent (\<lambda>_. 0) graph"
    and hpos: "\<forall>n. 0 \<le> h n" and hend: "h e = 0"
    and facts: "dijkstra_facts graph s e VD TD"
    and inv: "search_inv h graph s e Q V G" and pu: "pushed_inv graph s Q V"
    and sub: "VD \<subseteq> V" "V \<subseteq> VD \<union> set TD"
    and pre: "prefix_inv h graph s C VD TD V"
    and C: "\<forall>C'. opt graph s e C' \<longrightarrow> C' = C"
    and ne: "Q \<noteq> []" and pop: "heappop Q = ((f, g, n, p), q1)" and nv: "n \<notin> V"
  shows "n \<in> VD \<union> set TD"
proof (rule ccontr)
  assume nD: "n \<notin> VD \<union> set TD"
  have ev: "e \<notin> V"
    using inv unfolding search_inv_def by simp
  have key: "f = g + h n"
    using popped_entry_key[OF inv ne pop] .
  obtain x ed dx where x: "x \<in> V" "ed \<in> set (edges_of graph x)" "opt graph s x dx"
    "to ed = n" "g = dx + distance ed"
    using pu heappop_member(1)[OF ne pop] unfolding pushed_inv_def by blast
  have xD: "x \<in> VD \<union> set TD" "x \<noteq> e"
    using x(1) sub(2) ev by blast+
  have "to ed \<notin> VD \<union> set TD"
    using nD x(4) by simp
  then obtain C' where C': "e \<in> set TD" "opt graph s e C'" "C' \<le> dx + distance ed"
    "C' = dx + distance ed \<longrightarrow> e < to ed"
    using facts xD x(2) x(3) unfolding dijkstra_facts_def by blast
  have CC: "C' = C"
    using C C'(2) by blast
  have "walk graph s C e"
    using C'(2) CC unfolding opt_def by blast
  then obtain x' where x': "x' \<in> set Q" "fst x' \<le> C + h e"
    using frontier[OF cons inv] ev by blast
  have "f \<le> fst x'"
    using heappop_member(2)[OF ne pop] x'(1) fst_le_of_le[of "(f, g, n, p)" x'] by simp
  then have fC: "f \<le> C"
    using x'(2) hend by simp
  have "0 \<le> h n"
    using hpos by simp
  then have g: "g = C" "h n = 0" "f = C"
    using fC key C'(3) CC x(5) by simp_all
  have en: "e < n"
    using C'(4) CC g(1) x(5) x(4) by simp
  have pop': "heappop Q = ((C, C, n, p), q1)"
    using pop g by simp
  obtain y' where y': "y' = e \<or> y' \<in> before TD e" "y' \<in> set TD" "y' \<notin> V" "h y' = 0"
    "opt graph s y' C" "n \<le> y'"
    using popped_level[OF cons cons0 hpos facts inv sub(1) ne pop' C'(1) ev _ hend] C'(2) CC
    by blast
  have "y' \<noteq> e"
    using y'(6) en by auto
  moreover have "y' \<noteq> n"
    using y'(2) nD by blast
  ultimately have "n < y'"
    using y'(6) by simp
  moreover have "n \<notin> VD \<union> before TD y'"
    using nD before_subset[of TD y'] by blast
  ultimately show False
    using no_late_pusher[OF cons0 cons hpos facts sub pre y'(2) y'(3) y'(4) y'(5) g(2) _ _
        x(1) x(2) x(4) x(3)] x(5) g(1) by simp
qed

lemma prefix_after_pop:
  assumes cons: "consistent h graph" and cons0: "consistent (\<lambda>_. 0) graph"
    and hpos: "\<forall>n. 0 \<le> h n"
    and facts: "dijkstra_facts graph s e VD TD"
    and inv: "search_inv h graph s e Q V G" and pu: "pushed_inv graph s Q V"
    and sub: "VD \<subseteq> V" "V \<subseteq> VD \<union> set TD"
    and pre: "prefix_inv h graph s C VD TD V"
    and ne: "Q \<noteq> []" and pop: "heappop Q = ((f, g, n, p), q1)" and nv: "n \<notin> V"
  shows "prefix_inv h graph s C VD TD (insert n V)"
  unfolding prefix_inv_def
proof (intro ballI impI)
  fix x y
  assume xin: "x \<in> insert n V - VD" and yb: "y \<in> before TD x"
    and L: "h x = 0 \<and> opt graph s x C \<and> h y = 0 \<and> opt graph s y C"
  show "y \<in> insert n V"
  proof (cases "x = n")
    case False
    then show ?thesis
      using pre xin yb L unfolding prefix_inv_def by blast
  next
    case True
    show ?thesis
    proof (rule ccontr)
      assume "y \<notin> insert n V"
      then have yv: "y \<notin> V" by simp
      have ybn: "y \<in> before TD n"
        using yb True by simp
      have yT: "y \<in> set TD"
        using ybn before_subset[of TD n] by blast
      have "opt graph s n g"
        using popped_opt[OF cons inv ne pop nv] .
      moreover have "opt graph s n C"
        using L True by simp
      ultimately have g: "g = C"
        by (rule opt_unique)
      have f: "f = C"
        using popped_entry_key[OF inv ne pop] g L True by simp
      have pop': "heappop Q = ((C, C, n, p), q1)"
        using pop g f by simp
      obtain y' where y': "y' = y \<or> y' \<in> before TD y" "y' \<in> set TD" "y' \<notin> V" "h y' = 0"
        "opt graph s y' C" "n \<le> y'"
        using popped_level[OF cons cons0 hpos facts inv sub(1) ne pop' yT yv] L by blast
      have y'bn: "y' \<in> before TD n"
        using y'(1) ybn before_mono[OF ybn] by blast
      then have "y' \<noteq> n"
        using before_irrefl[of n TD] by blast
      then have lt: "n < y'"
        using y'(6) by simp
      have "n \<notin> before TD y'"
        using before_asym[OF y'bn] .
      moreover have "n \<notin> VD"
        using nv sub(1) by blast
      ultimately have nb: "n \<notin> VD \<union> before TD y'"
        by simp
      obtain x' ed dx where x': "x' \<in> V" "ed \<in> set (edges_of graph x')" "opt graph s x' dx"
        "to ed = n" "g = dx + distance ed"
        using pu heappop_member(1)[OF ne pop] unfolding pushed_inv_def by blast
      have hn: "h n = 0"
        using L True by simp
      show False
        using no_late_pusher[OF cons0 cons hpos facts sub pre y'(2) y'(3) y'(4) y'(5) hn lt nb
            x'(1) x'(2) x'(4) x'(3)] x'(5) g by simp
    qed
  qed
qed

lemma a_star_dequeues_subset:
  fixes c :: nat
  assumes cons: "consistent h graph" and cons0: "consistent (\<lambda>_. 0) graph"
    and hpos: "\<forall>n. 0 \<le> h n" and hend: "h e = 0"
    and facts: "dijkstra_facts graph s e VD TD"
    and reach: "(\<exists>c. walk graph s c e) \<longrightarrow> e \<in> VD \<union> set TD"
    and C: "\<forall>C'. opt graph s e C' \<longrightarrow> C' = C"
  shows "search_inv h graph s e Q V G \<and> pushed_inv graph s Q V \<and> VD \<subseteq> V \<and>
      V \<subseteq> VD \<union> set TD \<and> prefix_inv h graph s C VD TD V \<longrightarrow>
    set (a_star_dequeued_loop h graph e Q V G) \<subseteq> VD \<union> set TD"
proof (induction Q V G c
    rule: a_star_loop_cases_induct[where h = h and g = graph and e = e])
  case (empty V G c)
  show ?case by (simp add: a_star_dequeued_Nil)
next
  case (goal queue V G c f d p q1)
  show ?case
  proof
    assume a: "search_inv h graph s e queue V G \<and> pushed_inv graph s queue V \<and> VD \<subseteq> V \<and>
      V \<subseteq> VD \<union> set TD \<and> prefix_inv h graph s C VD TD V"
    have "walk graph s d e"
      using a heappop_member(1)[OF goal(1) goal(2)] unfolding search_inv_def by blast
    then have "e \<in> VD \<union> set TD"
      using reach by blast
    then show "set (a_star_dequeued_loop h graph e queue V G) \<subseteq> VD \<union> set TD"
      using a_star_dequeued_end[OF goal(1) goal(2)] by simp
  qed
next
  case (skip queue V G c f d n p q1)
  show ?case
  proof
    assume a: "search_inv h graph s e queue V G \<and> pushed_inv graph s queue V \<and> VD \<subseteq> V \<and>
      V \<subseteq> VD \<union> set TD \<and> prefix_inv h graph s C VD TD V"
    have "search_inv h graph s e q1 V G \<and> pushed_inv graph s q1 V"
      using a inv_after_skip[OF _ skip(1) skip(2) skip(4)]
        pushed_after_skip[OF _ skip(1) skip(2)] by blast
    then have "set (a_star_dequeued_loop h graph e q1 V G) \<subseteq> VD \<union> set TD"
      using skip(5) a by blast
    moreover have "n \<in> VD \<union> set TD"
      using a skip(4) by blast
    ultimately show "set (a_star_dequeued_loop h graph e queue V G) \<subseteq> VD \<union> set TD"
      using a_star_dequeued_skip[OF skip(1-4), of h graph G] by simp
  qed
next
  case (leaf queue V G c f d n p q1)
  show ?case
  proof
    assume a: "search_inv h graph s e queue V G \<and> pushed_inv graph s queue V \<and> VD \<subseteq> V \<and>
      V \<subseteq> VD \<union> set TD \<and> prefix_inv h graph s C VD TD V"
    then have inv: "search_inv h graph s e queue V G" and pu: "pushed_inv graph s queue V"
      and sub: "VD \<subseteq> V" "V \<subseteq> VD \<union> set TD" and pre: "prefix_inv h graph s C VD TD V"
      by simp_all
    have fo: "fold (a_star_relax h d n p) (edges_of graph n) (G, q1) = (G, q1)"
      using leaf(5) by (simp add: edges_of_None)
    have op: "opt graph s n d"
      using popped_opt[OF cons inv leaf(1) leaf(2) leaf(4)] .
    have nD: "n \<in> VD \<union> set TD"
      using popped_in_dijkstra[OF cons cons0 hpos hend facts inv pu sub pre C leaf(1) leaf(2)
          leaf(4)] .
    have "search_inv h graph s e q1 (insert n V) G"
      using inv_after_pop[OF cons inv leaf(1) leaf(2) leaf(3) leaf(4) fo] .
    moreover have "pushed_inv graph s q1 (insert n V)"
      using pushed_after_pop[OF pu leaf(1) leaf(2) op fo] .
    moreover have "prefix_inv h graph s C VD TD (insert n V)"
      using prefix_after_pop[OF cons cons0 hpos facts inv pu sub pre leaf(1) leaf(2) leaf(4)] .
    ultimately have "set (a_star_dequeued_loop h graph e q1 (insert n V) G) \<subseteq> VD \<union> set TD"
      using leaf(6) sub nD by blast
    then show "set (a_star_dequeued_loop h graph e queue V G) \<subseteq> VD \<union> set TD"
      using a_star_dequeued_leaf[OF leaf(1-5), of h G] nD by simp
  qed
next
  case (expand queue V G c f d n p q1 es G1 q2)
  show ?case
  proof
    assume a: "search_inv h graph s e queue V G \<and> pushed_inv graph s queue V \<and> VD \<subseteq> V \<and>
      V \<subseteq> VD \<union> set TD \<and> prefix_inv h graph s C VD TD V"
    then have inv: "search_inv h graph s e queue V G" and pu: "pushed_inv graph s queue V"
      and sub: "VD \<subseteq> V" "V \<subseteq> VD \<union> set TD" and pre: "prefix_inv h graph s C VD TD V"
      by simp_all
    have fo: "fold (a_star_relax h d n p) (edges_of graph n) (G, q1) = (G1, q2)"
      using expand(5) expand(6) by (simp add: edges_of_Some)
    have op: "opt graph s n d"
      using popped_opt[OF cons inv expand(1) expand(2) expand(4)] .
    have nD: "n \<in> VD \<union> set TD"
      using popped_in_dijkstra[OF cons cons0 hpos hend facts inv pu sub pre C expand(1)
          expand(2) expand(4)] .
    have "search_inv h graph s e q2 (insert n V) G1"
      using inv_after_pop[OF cons inv expand(1) expand(2) expand(3) expand(4) fo] .
    moreover have "pushed_inv graph s q2 (insert n V)"
      using pushed_after_pop[OF pu expand(1) expand(2) op fo] .
    moreover have "prefix_inv h graph s C VD TD (insert n V)"
      using prefix_after_pop[OF cons cons0 hpos facts inv pu sub pre expand(1) expand(2)
          expand(4)] .
    ultimately have "set (a_star_dequeued_loop h graph e q2 (insert n V) G1) \<subseteq> VD \<union> set TD"
      using expand(7) sub nD by blast
    then show "set (a_star_dequeued_loop h graph e queue V G) \<subseteq> VD \<union> set TD"
      using a_star_dequeued_expand[OF expand(1-6)] nD by simp
  qed
qed

lemma first_step:
  assumes cons: "consistent h graph" and se: "s \<noteq> e"
  obtains G1 q2 where
    "a_star_dequeued_loop h graph e [(f0, 0, s, [])] {} (init_table graph s)
       = s # a_star_dequeued_loop h graph e q2 {s} G1"
    "search_inv h graph s e q2 {s} G1" "pushed_inv graph s q2 {s}"
proof -
  obtain G1 q2 where
    fo: "fold (a_star_relax h 0 s []) (edges_of graph s) (init_table graph s, []) = (G1, q2)"
    by (cases "fold (a_star_relax h 0 s []) (edges_of graph s) (init_table graph s, [])")
  have opt0: "\<forall>c. walk graph s c s \<longrightarrow> 0 \<le> c"
    using consistent_walk[OF cons] by force
  have inv: "search_inv h graph s e q2 (insert s {}) G1"
  proof (rule inv_after_expand[OF _ se _ _ _ _ _ walk_start opt0 _ fo])
    show "e \<notin> {}" and "s \<in> insert s {}"
      by simp_all
    show "\<forall>f d' m p'. (f, d', m, p') \<in> set [] \<longrightarrow>
        f = d' + h m \<and> walk graph s d' m \<and> \<not> lt_cost d' (get_inf (init_table graph s) m)"
      by simp
    show "\<forall>m d'. get_inf (init_table graph s) m = Num d' \<longrightarrow> walk graph s d' m"
      by (auto simp: get_inf_init_table walk_start split: if_splits)
    show "\<forall>m d'. m \<notin> insert s {} \<longrightarrow> get_inf (init_table graph s) m = Num d' \<longrightarrow>
        (\<exists>p'. (d' + h m, d', m, p') \<in> set [])"
      by (simp add: get_inf_init_table)
    show "\<forall>v \<in> {}. \<exists>dv. get_inf (init_table graph s) v = Num dv \<and>
        (\<forall>c. walk graph s c v \<longrightarrow> dv \<le> c) \<and>
        (\<forall>ed \<in> set (edges_of graph v).
           \<not> lt_cost (dv + distance ed) (get_inf (init_table graph s) (to ed)))"
      by simp
    show "get_inf (init_table graph s) s = Num 0"
      by (simp add: get_inf_init_table)
  qed
  have ops: "opt graph s s 0"
    using opt0 walk_start[of graph s] unfolding opt_def by blast
  have pu: "pushed_inv graph s q2 {s}"
    unfolding pushed_inv_def
  proof (intro allI impI)
    fix f' d' m p' assume "(f', d', m, p') \<in> set q2"
    then have "\<exists>ed \<in> set (edges_of graph s).
        (f', d', m, p') = (0 + distance ed + h (to ed), 0 + distance ed, to ed,
           [] @ [(s, Some (line ed))])"
      using fold_relax_new_entry[OF fo, of "(f', d', m, p')"] by simp
    then obtain ed where ed: "ed \<in> set (edges_of graph s)" "m = to ed"
      "d' = 0 + distance ed"
      by auto
    have "opt graph s s 0 \<and> to ed = m \<and> d' = 0 + distance ed"
      using ops ed by simp
    then show "\<exists>x \<in> {s}. \<exists>ed \<in> set (edges_of graph x). \<exists>dx.
        opt graph s x dx \<and> to ed = m \<and> d' = dx + distance ed"
      using ed(1) by blast
  qed
  have step: "a_star_dequeued_loop h graph e [(f0, 0, s, [])] {} (init_table graph s)
      = s # a_star_dequeued_loop h graph e q2 (insert s {}) G1"
  proof (cases "fmlookup graph s")
    case None
    then have "G1 = init_table graph s" "q2 = []"
      using fo by (simp_all add: edges_of_None)
    then show ?thesis
      using a_star_dequeued_leaf[of "[(f0, 0, s, [])]" f0 0 s "[]" "[]" e "{}" graph h] se None
      by (simp add: heappop_single)
  next
    case (Some es)
    then have "fold (a_star_relax h 0 s []) es (init_table graph s, []) = (G1, q2)"
      using fo by (simp add: edges_of_Some)
    then show ?thesis
      using a_star_dequeued_expand[of "[(f0, 0, s, [])]" f0 0 s "[]" "[]" e "{}" graph es h]
        se Some
      by (simp add: heappop_single)
  qed
  show ?thesis
    using that[of q2 G1] step inv pu by simp
qed

lemma a_star_dequeued_loop_subset:
  assumes cons: "consistent h graph" and cons0: "consistent (\<lambda>_. 0) graph"
    and hpos: "\<forall>n. 0 \<le> h n" and hend: "h e = 0"
  shows "set (a_star_dequeued_loop h graph e [(f0, 0, s, [])] {} (init_table graph s))
    \<subseteq> set (a_star_dequeued_loop (\<lambda>_. 0) graph e [(0, 0, s, [])] {} (init_table graph s))"
proof (cases "s = e")
  case True
  then show ?thesis
    using a_star_dequeued_end[of "[(f0, 0, s, [])]" f0 0 e "[]" "[]" h graph "{}"]
      a_star_dequeued_end[of "[(0, 0, s, [])]" 0 0 e "[]" "[]" "\<lambda>_. 0" graph "{}"]
    by (simp add: heappop_single)
next
  case False
  obtain GD qD where D:
    "a_star_dequeued_loop (\<lambda>_. 0) graph e [(0, 0, s, [])] {} (init_table graph s)
       = s # a_star_dequeued_loop (\<lambda>_. 0) graph e qD {s} GD"
    "search_inv (\<lambda>_. 0) graph s e qD {s} GD" "pushed_inv graph s qD {s}"
    using first_step[OF cons0 False, of 0] by blast
  obtain GA qA where A:
    "a_star_dequeued_loop h graph e [(f0, 0, s, [])] {} (init_table graph s)
       = s # a_star_dequeued_loop h graph e qA {s} GA"
    "search_inv h graph s e qA {s} GA" "pushed_inv graph s qA {s}"
    using first_step[OF cons False, of f0] by blast
  define TD where "TD = a_star_dequeued_loop (\<lambda>_. 0) graph e qD {s} GD"
  have facts: "dijkstra_facts graph s e {s} TD"
    unfolding dijkstra_facts_def TD_def
    using dijkstra_closure[OF cons0, of s e qD "{s}" GD] first_pop_state[OF cons0, of s e qD "{s}" GD]
      D(2) D(3) by blast
  have reach: "(\<exists>c. walk graph s c e) \<longrightarrow> e \<in> {s} \<union> set TD"
    unfolding TD_def using reachable_end_dequeued[OF cons0 D(2)] by blast
  obtain C where C: "\<forall>C'. opt graph s e C' \<longrightarrow> C' = C"
    by (metis opt_unique)
  have pre: "prefix_inv h graph s C {s} TD {s}"
    unfolding prefix_inv_def by simp
  have "set (a_star_dequeued_loop h graph e qA {s} GA) \<subseteq> {s} \<union> set TD"
    using a_star_dequeues_subset[OF cons cons0 hpos hend facts reach C, of qA "{s}" GA]
      A(2) A(3) pre by blast
  then show ?thesis
    unfolding A(1) D(1) TD_def by auto
qed

lemma a_star_dequeued_subset:
  assumes "nonneg_weights graph" "heuristic_consistent graph e sd"
  shows "set (a_star_dequeued graph s e sd) \<subseteq> set (dijkstra_dequeued graph s e)"
proof -
  have cons: "consistent (\<lambda>n. heuristic n e sd) graph"
    using assms(2) by (simp add: heuristic_consistent_def consistent_def)
  show ?thesis
    unfolding a_star_dequeued_def dijkstra_dequeued_def dijkstra_dequeued_a_star_dequeued
    using a_star_dequeued_loop_subset[OF cons nonneg_consistent_zero[OF assms(1)], of e 0 s]
    by (simp add: heuristic_nonneg heuristic_end lift_entry_def)
qed

lemma a_star_count_dequeued:
  "snd (snd (a_star graph s e sd)) = length (a_star_dequeued graph s e sd)"
  using a_star_dequeued_result[of e graph s sd]
  by (cases "e \<in> set (a_star_dequeued graph s e sd)") auto

lemma dijkstra_count_dequeued:
  "snd (snd (dijkstra graph s e)) = length (dijkstra_dequeued graph s e)"
  using dijkstra_dequeued_result[of e graph s]
  by (cases "e \<in> set (dijkstra_dequeued graph s e)") auto

subsection \<open>Dequeued stations on the example networks\<close>

lemma branch_heuristic:
  "heuristic ''S'' ''E'' branch_stations = 6371 * pi"
  "heuristic ''M'' ''E'' branch_stations = 6371 * pi"
  "heuristic ''W'' ''E'' branch_stations = 6371 * pi"
  "heuristic ''E'' ''E'' branch_stations = 0"
  by (simp_all add: heuristic_def branch_stations_def haversine_half_turn haversine_same)

lemma branch_nonneg: "nonneg_weights branch_graph"
  by (simp add: nonneg_weights_def branch_graph_def edges_of_def)

lemma branch_consistent: "heuristic_consistent branch_graph ''E'' branch_stations"
  using pi_less_4
  by (simp add: heuristic_consistent_def branch_graph_def edges_of_def branch_heuristic)

lemma branch_dijkstra_dequeued:
  "dijkstra_dequeued branch_graph ''S'' ''E'' = [''S'', ''M'', ''W'', ''E'']"
  by (simp add: dequeued_simps branch_graph_def)

lemma branch_a_star_dequeued:
  "a_star_dequeued branch_graph ''S'' ''E'' branch_stations = [''S'', ''M'', ''E'']"
  using pi_ge_two pi_less_4
  by (simp add: dequeued_simps branch_graph_def branch_heuristic)

lemma branch_dijkstra: "snd (snd (dijkstra branch_graph ''S'' ''E'')) = 4"
  by (simp add: run_simps branch_graph_def)

lemma branch_a_star: "snd (snd (a_star branch_graph ''S'' ''E'' branch_stations)) = 3"
  using pi_ge_two pi_less_4
  by (simp add: run_simps branch_graph_def branch_heuristic)

lemma detour_a_star_dequeued:
  "a_star_dequeued detour_graph ''S'' ''E'' detour_stations
     = [''S'', ''P2'', ''P1'', ''X'', ''X'', ''E'']"
  using pi_ge_two pi_less_4
  by (simp add: dequeued_simps detour_graph_def detour_heuristic)

lemma detour_dijkstra_dequeued:
  "dijkstra_dequeued detour_graph ''S'' ''E'' = [''S'', ''P1'', ''P2'', ''X'', ''E'']"
  by (simp add: dequeued_simps detour_graph_def)

section \<open>The claims\<close>

text \<open>
  C1. For a graph with non-negative edge weights the cost returned by dijkstra is the
  minimum cost over all walks from start to end; it is the sentinel \<open>PosInf\<close> exactly when
  there is no walk.
\<close>

theorem dijkstra_cost_is_minimum:
  assumes "nonneg_weights graph"
  shows "is_min_cost graph s e (fst (dijkstra graph s e)) \<and>
    (fst (dijkstra graph s e) = PosInf \<longleftrightarrow> (\<forall>d. \<not> walk graph s d e))"
  using dijkstra_is_min_cost[OF assms, of s e]
  by (cases "fst (dijkstra graph s e)") (auto simp: is_min_cost_def)

theorem dijkstra_cost_is_minimum_witness:
  "nonneg_weights line_graph \<and> is_min_cost line_graph ''A'' ''D'' (Num (9 / 2))"
proof -
  have nn: "nonneg_weights line_graph"
    by (simp add: nonneg_weights_def line_graph_def edges_of_def)
  have "fst (dijkstra line_graph ''A'' ''D'') = Num (9 / 2)"
    by (simp add: run_simps line_graph_def)
  then show ?thesis
    using dijkstra_cost_is_minimum[OF nn, of "''A''" "''D''"] nn by simp
qed

text \<open>
  C2, as stated: for every metadata table the cost of a\_star equals the cost of dijkstra.
  It fails on the shortcut network, where the estimate is admissible: a\_star closes \<open>B\<close>
  at cost 3 before the cheaper way over \<open>A\<close> is found, and returns 30003 where dijkstra
  returns 30002.
\<close>

theorem a_star_cost_differs_counterexample:
  "nonneg_weights shortcut_graph \<and> heuristic_admissible shortcut_graph ''E'' shortcut_stations \<and>
   fst (dijkstra shortcut_graph ''S'' ''E'') = Num 30002 \<and>
   fst (a_star shortcut_graph ''S'' ''E'' shortcut_stations) = Num 30003"
  by (simp add: shortcut_nonneg shortcut_admissible shortcut_dijkstra shortcut_a_star)

text \<open>
  C2, amended: for a graph with non-negative edge weights and a metadata table whose
  estimate is consistent on the edges of the graph, the cost returned by a\_star equals the
  cost returned by dijkstra.
\<close>

theorem a_star_cost_equals_dijkstra_if_consistent:
  assumes "nonneg_weights graph" "heuristic_consistent graph e sd"
  shows "fst (a_star graph s e sd) = fst (dijkstra graph s e)"
  using is_min_cost_unique[OF a_star_is_min_cost[OF assms(2)] dijkstra_is_min_cost[OF assms(1)]] .

theorem a_star_cost_equals_dijkstra_if_consistent_witness:
  "nonneg_weights equator_graph \<and> heuristic_consistent equator_graph ''E'' equator_stations \<and>
   fst (a_star equator_graph ''S'' ''E'' equator_stations) = Num 26001 \<and>
   fst (dijkstra equator_graph ''S'' ''E'') = Num 26001"
proof -
  have nn: "nonneg_weights equator_graph"
    by (simp add: nonneg_weights_def equator_graph_def edges_of_def)
  have co: "heuristic_consistent equator_graph ''E'' equator_stations"
    using pi_less_4
    by (simp add: heuristic_consistent_def equator_graph_def edges_of_def equator_heuristic)
  have "fst (dijkstra equator_graph ''S'' ''E'') = Num 26001"
    by (simp add: run_simps equator_graph_def)
  then show ?thesis
    using a_star_cost_equals_dijkstra_if_consistent[OF nn co, of "''S''"] nn co by simp
qed

text \<open>
  C3, as stated: with an admissible and consistent estimate a\_star dequeues no more entries
  than dijkstra. It fails on the detour network: a\_star expands \<open>P2\<close> before \<open>P1\<close> and so
  queues \<open>X\<close> twice; the stale entry is dequeued before the end station, giving 6 dequeues
  against 5 of dijkstra.
\<close>

theorem a_star_visits_more_counterexample:
  "nonneg_weights detour_graph \<and> heuristic_consistent detour_graph ''E'' detour_stations \<and>
   heuristic_admissible detour_graph ''E'' detour_stations \<and>
   snd (snd (a_star detour_graph ''S'' ''E'' detour_stations)) = 6 \<and>
   snd (snd (dijkstra detour_graph ''S'' ''E'')) = 5"
  by (simp add: detour_nonneg detour_consistent detour_admissible detour_a_star
      detour_dijkstra)

text \<open>
  C3, amended: for non-negative weights and a consistent estimate (the estimate need not
  be 0), the count of either search is the length of its list of dequeued stations, every
  station that a\_star dequeues is also dequeued by dijkstra, so a\_star dequeues no more
  distinct stations than dijkstra, and whenever a\_star dequeues no station twice (no stale
  queue entry is dequeued) its count is at most the count of dijkstra.
\<close>

theorem a_star_dequeues_only_what_dijkstra_dequeues:
  assumes "nonneg_weights graph" "heuristic_consistent graph e sd"
  shows "snd (snd (a_star graph s e sd)) = length (a_star_dequeued graph s e sd) \<and>
    snd (snd (dijkstra graph s e)) = length (dijkstra_dequeued graph s e) \<and>
    set (a_star_dequeued graph s e sd) \<subseteq> set (dijkstra_dequeued graph s e) \<and>
    card (set (a_star_dequeued graph s e sd)) \<le> card (set (dijkstra_dequeued graph s e)) \<and>
    (distinct (a_star_dequeued graph s e sd) \<longrightarrow>
       snd (snd (a_star graph s e sd)) \<le> snd (snd (dijkstra graph s e)))"
proof (intro conjI)
  show "snd (snd (a_star graph s e sd)) = length (a_star_dequeued graph s e sd)"
    by (rule a_star_count_dequeued)
  show "snd (snd (dijkstra graph s e)) = length (dijkstra_dequeued graph s e)"
    by (rule dijkstra_count_dequeued)
  show sub: "set (a_star_dequeued graph s e sd) \<subseteq> set (dijkstra_dequeued graph s e)"
    using a_star_dequeued_subset[OF assms] .
  show le: "card (set (a_star_dequeued graph s e sd)) \<le> card (set (dijkstra_dequeued graph s e))"
    using sub by (simp add: card_mono)
  show "distinct (a_star_dequeued graph s e sd) \<longrightarrow>
       snd (snd (a_star graph s e sd)) \<le> snd (snd (dijkstra graph s e))"
  proof
    assume "distinct (a_star_dequeued graph s e sd)"
    then have "length (a_star_dequeued graph s e sd) = card (set (a_star_dequeued graph s e sd))"
      by (simp add: distinct_card)
    also have "\<dots> \<le> card (set (dijkstra_dequeued graph s e))"
      by (rule le)
    also have "\<dots> \<le> length (dijkstra_dequeued graph s e)"
      by (rule card_length)
    finally show "snd (snd (a_star graph s e sd)) \<le> snd (snd (dijkstra graph s e))"
      by (simp add: a_star_count_dequeued dijkstra_count_dequeued)
  qed
qed

theorem a_star_dequeues_only_what_dijkstra_dequeues_witness:
  "nonneg_weights branch_graph \<and> heuristic_consistent branch_graph ''E'' branch_stations \<and>
   heuristic ''S'' ''E'' branch_stations = 6371 * pi \<and>
   a_star_dequeued branch_graph ''S'' ''E'' branch_stations = [''S'', ''M'', ''E''] \<and>
   dijkstra_dequeued branch_graph ''S'' ''E'' = [''S'', ''M'', ''W'', ''E''] \<and>
   distinct (a_star_dequeued branch_graph ''S'' ''E'' branch_stations) \<and>
   snd (snd (a_star branch_graph ''S'' ''E'' branch_stations)) = 3 \<and>
   snd (snd (dijkstra branch_graph ''S'' ''E'')) = 4 \<and>
   snd (snd (a_star branch_graph ''S'' ''E'' branch_stations))
     \<le> snd (snd (dijkstra branch_graph ''S'' ''E''))"
  using a_star_dequeues_only_what_dijkstra_dequeues[OF branch_nonneg branch_consistent, of "''S''"]
    branch_nonneg branch_consistent branch_heuristic(1)
    branch_a_star_dequeued branch_dijkstra_dequeued
  by simp

text \<open>
  C4. When the end station is not among the dequeued stations (the queue ran empty), either
  search returns the sentinel cost \<open>PosInf\<close>, an empty path and the number of stations it
  dequeued; when the end station is dequeued the result is a finite cost, a path ending in
  the end station and again the number of dequeues. When the start station is not a key of
  the graph and differs from the end station, both searches dequeue the start station only
  and return the unreachable result with count 1.
\<close>

theorem unreachable_result:
  "(e \<notin> set (dijkstra_dequeued graph s e) \<longrightarrow>
      dijkstra graph s e = (PosInf, [], length (dijkstra_dequeued graph s e))) \<and>
   (e \<in> set (dijkstra_dequeued graph s e) \<longrightarrow>
      (\<exists>d p. dijkstra graph s e
         = (Num d, p @ [(e, None)], length (dijkstra_dequeued graph s e)))) \<and>
   (e \<notin> set (a_star_dequeued graph s e sd) \<longrightarrow>
      a_star graph s e sd = (PosInf, [], length (a_star_dequeued graph s e sd))) \<and>
   (e \<in> set (a_star_dequeued graph s e sd) \<longrightarrow>
      (\<exists>d p. a_star graph s e sd
         = (Num d, p @ [(e, None)], length (a_star_dequeued graph s e sd)))) \<and>
   (s \<noteq> e \<and> fmlookup graph s = None \<longrightarrow>
      dijkstra_dequeued graph s e = [s] \<and> dijkstra graph s e = (PosInf, [], 1) \<and>
      a_star_dequeued graph s e sd = [s] \<and> a_star graph s e sd = (PosInf, [], 1))"
proof (intro conjI)
  show "e \<notin> set (dijkstra_dequeued graph s e) \<longrightarrow>
      dijkstra graph s e = (PosInf, [], length (dijkstra_dequeued graph s e))"
    using dijkstra_dequeued_result[of e graph s] by blast
  show "e \<in> set (dijkstra_dequeued graph s e) \<longrightarrow>
      (\<exists>d p. dijkstra graph s e
         = (Num d, p @ [(e, None)], length (dijkstra_dequeued graph s e)))"
    using dijkstra_dequeued_result[of e graph s] by blast
  show "e \<notin> set (a_star_dequeued graph s e sd) \<longrightarrow>
      a_star graph s e sd = (PosInf, [], length (a_star_dequeued graph s e sd))"
    using a_star_dequeued_result[of e graph s sd] by blast
  show "e \<in> set (a_star_dequeued graph s e sd) \<longrightarrow>
      (\<exists>d p. a_star graph s e sd
         = (Num d, p @ [(e, None)], length (a_star_dequeued graph s e sd)))"
    using a_star_dequeued_result[of e graph s sd] by blast
  show "s \<noteq> e \<and> fmlookup graph s = None \<longrightarrow>
      dijkstra_dequeued graph s e = [s] \<and> dijkstra graph s e = (PosInf, [], 1) \<and>
      a_star_dequeued graph s e sd = [s] \<and> a_star graph s e sd = (PosInf, [], 1)"
  proof
    assume a: "s \<noteq> e \<and> fmlookup graph s = None"
    have "dijkstra_dequeued graph s e = [s]"
      unfolding dijkstra_dequeued_def dijkstra_dequeued_a_star_dequeued
      using a_star_dequeued_start_leaf[of s e graph] a by (simp add: lift_entry_def)
    moreover have "dijkstra graph s e = (PosInf, [], 1)"
      unfolding dijkstra_def dijkstra_loop_a_star_loop
      using a_star_loop_start_leaf[of s e graph] a by (simp add: lift_entry_def)
    moreover have "a_star_dequeued graph s e sd = [s]"
      unfolding a_star_dequeued_def using a_star_dequeued_start_leaf[of s e graph] a by simp
    moreover have "a_star graph s e sd = (PosInf, [], 1)"
      unfolding a_star_def using a_star_loop_start_leaf[of s e graph] a by simp
    ultimately show "dijkstra_dequeued graph s e = [s] \<and> dijkstra graph s e = (PosInf, [], 1) \<and>
      a_star_dequeued graph s e sd = [s] \<and> a_star graph s e sd = (PosInf, [], 1)"
      by simp
  qed
qed

theorem unreachable_result_witness:
  "dijkstra_dequeued line_graph ''D'' ''Z'' = [''D'', ''C'', ''B'', ''A''] \<and>
   dijkstra line_graph ''D'' ''Z'' = (PosInf, [], 4) \<and>
   a_star_dequeued line_graph ''D'' ''Z'' equator_stations = [''D'', ''C'', ''B'', ''A''] \<and>
   a_star line_graph ''D'' ''Z'' equator_stations = (PosInf, [], 4) \<and>
   dijkstra line_graph ''Z'' ''A'' = (PosInf, [], 1) \<and>
   a_star line_graph ''Z'' ''A'' equator_stations = (PosInf, [], 1)"
proof -
  have d: "dijkstra_dequeued line_graph ''D'' ''Z'' = [''D'', ''C'', ''B'', ''A'']"
    by (simp add: dequeued_simps line_graph_def)
  have h: "heuristic n ''Z'' equator_stations = 0" for n
    by (simp add: heuristic_def equator_stations_def split: option.splits)
  have a: "a_star_dequeued line_graph ''D'' ''Z'' equator_stations = [''D'', ''C'', ''B'', ''A'']"
    by (simp add: dequeued_simps line_graph_def h)
  have k: "''Z'' \<noteq> ''A'' \<and> fmlookup line_graph ''Z'' = None"
    by (simp add: line_graph_def)
  show ?thesis
    using unreachable_result[of "''Z''" line_graph "''D''" equator_stations]
      unreachable_result[of "''A''" line_graph "''Z''" equator_stations] d a k
    by simp
qed

text \<open>
  C5. When start equals end, dijkstra and a\_star return cost 0 and a count of at least 1,
  and format\_path turns the returned path into the one-station route with no line.
\<close>

theorem start_equals_end: "fst (dijkstra graph s s) = Num 0 \<and> 1 \<le> snd (snd (dijkstra graph s s)) \<and>
   format_path (fst (snd (dijkstra graph s s))) = Route [s] [] \<and>
   fst (a_star graph s s sd) = Num 0 \<and> 1 \<le> snd (snd (a_star graph s s sd)) \<and>
   format_path (fst (snd (a_star graph s s sd))) = Route [s] []"
  by (simp add: dijkstra_same a_star_same format_path_def)

text \<open>
  C6. heuristic returns 0 when either identifier is absent from the metadata table, and
  the haversine distance between the two stations' coordinates otherwise.
\<close>

theorem heuristic_policy:
  "(fmlookup stations_data node = None \<or> fmlookup stations_data target = None \<longrightarrow>
      heuristic node target stations_data = 0) \<and>
   (\<forall>s1 s2. fmlookup stations_data node = Some s1 \<and> fmlookup stations_data target = Some s2 \<longrightarrow>
      heuristic node target stations_data =
        haversine (lat (coords s1)) (lon (coords s1)) (lat (coords s2)) (lon (coords s2)))"
  by (auto simp: heuristic_def Let_def split: option.splits)

theorem heuristic_policy_witness:
  "heuristic ''A'' ''Z''
     (fmap_of_list [(''A'', \<lparr>coords = \<lparr>lat = 0, lon = 0\<rparr>\<rparr>),
                    (''B'', \<lparr>coords = \<lparr>lat = 0, lon = 180\<rparr>\<rparr>)]) = 0 \<and>
   heuristic ''A'' ''B''
     (fmap_of_list [(''A'', \<lparr>coords = \<lparr>lat = 0, lon = 0\<rparr>\<rparr>),
                    (''B'', \<lparr>coords = \<lparr>lat = 0, lon = 180\<rparr>\<rparr>)]) = haversine 0 0 0 180"
  using heuristic_policy[of
      "fmap_of_list [(''A'', \<lparr>coords = \<lparr>lat = 0, lon = 0\<rparr>\<rparr>),
                     (''B'', \<lparr>coords = \<lparr>lat = 0, lon = 180\<rparr>\<rparr>)]" "''A''" "''Z''"]
    heuristic_policy[of
      "fmap_of_list [(''A'', \<lparr>coords = \<lparr>lat = 0, lon = 0\<rparr>\<rparr>),
                     (''B'', \<lparr>coords = \<lparr>lat = 0, lon = 180\<rparr>\<rparr>)]" "''A''" "''B''"]
  by simp

text \<open>
  C7. format\_path collapses consecutive identical lines: the example path gives the route
  \<open>[A, B, C, D]\<close> and the lines Red, Blue; for every non-empty path the route lists the
  stations in order and the lines are those of all entries but the last with adjacent
  repetitions removed; the empty path gives the message, which no one-entry path gives.
\<close>

theorem format_path_collapses_lines:
  "format_path [(A, Some ''Red''), (B, Some ''Red''), (C, Some ''Blue''), (D, None)]
     = Route [A, B, C, D] [Some ''Red'', Some ''Blue''] \<and>
   format_path (x # xs) = Route (map fst (x # xs)) (remdups_adj (map snd (butlast (x # xs)))) \<and>
   format_path [] = Message ''No path found.'' \<and>
   format_path [] \<noteq> format_path [y]"
  by (simp add: format_path_Cons) (simp add: format_path_def)


text \<open>
  C9. The report of main never fails with a division by zero.
\<close>

theorem report_never_divides_by_zero: "main stations edges s e \<noteq> Inl ZeroDivisionError"
proof -
  obtain dd dp dn where d: "dijkstra edges s e = (dd, dp, dn)" by (cases "dijkstra edges s e")
  obtain ad ap an where a: "a_star edges s e stations = (ad, ap, an)"
    by (cases "a_star edges s e stations")
  have "1 \<le> dn" using dijkstra_count_pos[of edges s e] d by simp
  then have "improvement dn an \<noteq> Inl ZeroDivisionError" by (simp add: improvement_def)
  then show ?thesis
    by (auto simp: main_def d a split: formatted.splits sum.splits py_error.splits)
qed

text \<open>
  C10. dijkstra and a\_star return a count of at least 1, so the divisor of the reported
  percentage is not zero.
\<close>

theorem nodes_visited_at_least_one: "1 \<le> snd (snd (dijkstra graph s e)) \<and> 1 \<le> snd (snd (a_star graph s e sd)) \<and>
  improvement (snd (snd (dijkstra graph s e))) (snd (snd (a_star graph s e sd))) \<noteq> Inl ZeroDivisionError"
  using dijkstra_count_pos[of graph s e] a_star_count_pos[of graph s e sd]
  by (simp add: improvement_def)

end
